theory Spec2Isabelle
  imports Main
begin

section \<open>The rule no-loss-of-precision\<close>

text \<open>
  A shallow embedding of \<^verbatim>\<open>lib/rules/no-loss-of-precision.js\<close>. Every function of the
  rule keeps its name. The built-ins of the JavaScript runtime that the rule calls are
  modelled after ECMA-262 and carry the name of their prototype (\<open>String_\<close>, \<open>Number_\<close>).
  A JavaScript string is a \<open>string\<close>: the text of a numeric literal is ASCII.
\<close>

subsection \<open>String built-ins\<close>

definition String_startsWith :: "string \<Rightarrow> string \<Rightarrow> bool" where
  "String_startsWith s p = (take (length p) s = p)"

definition String_endsWith :: "string \<Rightarrow> string \<Rightarrow> bool" where
  "String_endsWith s p = (length p \<le> length s \<and> drop (length s - length p) s = p)"

text \<open>\<^verbatim>\<open>s.includes(c)\<close> for a one-character search string.\<close>

definition String_includes :: "string \<Rightarrow> char \<Rightarrow> bool" where
  "String_includes s c = (c \<in> set s)"

text \<open>\<^verbatim>\<open>s.indexOf(c)\<close>: the index of the first occurrence, -1 when there is none.\<close>

definition String_indexOf :: "string \<Rightarrow> char \<Rightarrow> int" where
  "String_indexOf s c = (if c \<in> set s then int (length (takeWhile (\<lambda>x. x \<noteq> c) s)) else - 1)"

text \<open>\<^verbatim>\<open>s.replace(c, r)\<close> with a string pattern: only the first occurrence is replaced.\<close>

fun String_replace :: "string \<Rightarrow> char \<Rightarrow> string \<Rightarrow> string" where
  "String_replace [] c r = []"
| "String_replace (x # xs) c r = (if x = c then r @ xs else x # String_replace xs c r)"

text \<open>\<^verbatim>\<open>s.replace(/c/gu, "")\<close>: every occurrence is removed.\<close>

definition String_removeAll :: "string \<Rightarrow> char \<Rightarrow> string" where
  "String_removeAll s c = filter (\<lambda>x. x \<noteq> c) s"

text \<open>\<^verbatim>\<open>s.split(c)\<close>: the pieces between the occurrences of \<open>c\<close>; never an empty array.\<close>

fun String_split :: "string \<Rightarrow> char \<Rightarrow> string list" where
  "String_split [] c = [[]]"
| "String_split (x # xs) c =
     (if x = c then [] # String_split xs c
      else (case String_split xs c of
              [] \<Rightarrow> [[x]]
            | piece # pieces \<Rightarrow> (x # piece) # pieces))"

text \<open>\<^verbatim>\<open>s.toUpperCase()\<close> on ASCII text: the letters a to z move to A to Z.\<close>

definition upper_char :: "char \<Rightarrow> char" where
  "upper_char c =
     (case map_of (zip ''abcdefghijklmnopqrstuvwxyz'' ''ABCDEFGHIJKLMNOPQRSTUVWXYZ'') c of
        None \<Rightarrow> c
      | Some u \<Rightarrow> u)"

definition String_toUpperCase :: "string \<Rightarrow> string" where
  "String_toUpperCase s = map upper_char s"

text \<open>
  The template \<^verbatim>\<open>`${s[0]}`\<close>: reading index 0 of the empty string gives
  \<^verbatim>\<open>undefined\<close>, which the template prints as the text "undefined".
\<close>

definition template_first :: "string \<Rightarrow> string" where
  "template_first s = (case s of [] \<Rightarrow> ''undefined'' | c # _ \<Rightarrow> [c])"

subsection \<open>Integers as text\<close>

definition is_digit :: "char \<Rightarrow> bool" where
  "is_digit c = (c \<in> set ''0123456789'')"

text \<open>The digit of a value below 36, and the value of a decimal digit.\<close>

definition digit_char :: "nat \<Rightarrow> char" where
  "digit_char d = ''0123456789abcdefghijklmnopqrstuvwxyz'' ! (d mod 36)"

definition digit_value :: "char \<Rightarrow> nat" where
  "digit_value c = length (takeWhile (\<lambda>x. x \<noteq> c) ''0123456789'')"

text \<open>The digits of a natural number in a radix from 2 to 36, most significant first.\<close>

function to_radix :: "nat \<Rightarrow> nat \<Rightarrow> string" where
  "to_radix b n =
     (if b < 2 \<or> n < b then [digit_char n] else to_radix b (n div b) @ [digit_char (n mod b)])"
  by pat_completeness auto
termination
  by (relation "measure (\<lambda>(b, n). n)") auto

declare to_radix.simps [simp del]

text \<open>
  A number that is an integer or NaN: the magnitudes of the rule. \<^verbatim>\<open>parseInt\<close> gives NaN
  when no digit follows the sign. The model computes with unbounded integers, which is
  what the doubles of the runtime do while the exponent of a literal stays below \<open>2^53\<close>
  in absolute value; beyond that \<^verbatim>\<open>parseInt\<close> rounds. The theorems that depend on the
  text of a magnitude assume that bound. White space is the ASCII part of what
  \<^verbatim>\<open>parseInt\<close> skips.
\<close>

type_synonym integer_or_NaN = "int option"

definition is_whitespace :: "char \<Rightarrow> bool" where
  "is_whitespace c = (c \<in> set [CHR 0x09, CHR 0x0A, CHR 0x0B, CHR 0x0C, CHR 0x0D, CHR 0x20])"

definition digits_value :: "string \<Rightarrow> nat" where
  "digits_value z = foldl (\<lambda>a c. 10 * a + digit_value c) 0 z"

text \<open>\<^verbatim>\<open>parseInt(inputString, 10)\<close>: white space, a sign, the longest prefix of digits.\<close>

definition parseInt :: "string \<Rightarrow> integer_or_NaN" where
  "parseInt inputString =
     (let s = dropWhile is_whitespace inputString;
          negative = (s \<noteq> [] \<and> hd s = CHR ''-'');
          s' = (if s \<noteq> [] \<and> (hd s = CHR ''+'' \<or> hd s = CHR ''-'') then tl s else s);
          z = takeWhile is_digit s'
      in if z = [] then None
         else Some (if negative then - int (digits_value z) else int (digits_value z)))"

text \<open>\<^verbatim>\<open>`${k}`\<close> for an integer or NaN.\<close>

definition integer_toString :: "int \<Rightarrow> string" where
  "integer_toString k = (if k < 0 then ''-'' @ to_radix 10 (nat (- k)) else to_radix 10 (nat k))"

definition template_number :: "integer_or_NaN \<Rightarrow> string" where
  "template_number k = (case k of None \<Rightarrow> ''NaN'' | Some i \<Rightarrow> integer_toString i)"

text \<open>\<^verbatim>\<open>parseInt(x, 10) + m\<close>: NaN stays NaN.\<close>

definition plus_magnitude :: "integer_or_NaN \<Rightarrow> int \<Rightarrow> integer_or_NaN" where
  "plus_magnitude k m = (case k of None \<Rightarrow> None | Some i \<Rightarrow> Some (i + m))"

subsection \<open>The digit-string utilities of the rule\<close>

definition addDecimalPointToNumber :: "string \<Rightarrow> string" where
  "addDecimalPointToNumber stringNumber = template_first stringNumber @ ''.'' @ drop 1 stringNumber"

text \<open>The loop of \<^verbatim>\<open>removeLeadingZeros\<close>, from index \<open>i\<close> on.\<close>

function removeLeadingZeros_from :: "string \<Rightarrow> nat \<Rightarrow> string" where
  "removeLeadingZeros_from numberAsString i =
     (if i < length numberAsString
      then (if numberAsString ! i \<noteq> CHR ''0'' then drop i numberAsString
            else removeLeadingZeros_from numberAsString (Suc i))
      else numberAsString)"
  by pat_completeness auto
termination
  by (relation "measure (\<lambda>(s, i). length s - i)") auto

declare removeLeadingZeros_from.simps [simp del]

definition removeLeadingZeros :: "string \<Rightarrow> string" where
  "removeLeadingZeros numberAsString = removeLeadingZeros_from numberAsString 0"

text \<open>
  The loop of \<^verbatim>\<open>removeTrailingZeros\<close> runs \<open>i\<close> from \<open>length - 1\<close> down to 0; the
  argument here is \<open>i + 1\<close>, so that the test \<^verbatim>\<open>i >= 0\<close> is the pattern \<open>Suc i\<close>.
\<close>

fun removeTrailingZeros_from :: "string \<Rightarrow> nat \<Rightarrow> string" where
  "removeTrailingZeros_from numberAsString 0 = numberAsString"
| "removeTrailingZeros_from numberAsString (Suc i) =
     (if numberAsString ! i \<noteq> CHR ''0'' then take (i + 1) numberAsString
      else removeTrailingZeros_from numberAsString i)"

definition removeTrailingZeros :: "string \<Rightarrow> string" where
  "removeTrailingZeros numberAsString =
     removeTrailingZeros_from numberAsString (length numberAsString)"

subsection \<open>The decimal normalizer\<close>

record normalized =
  magnitude :: int
  coefficient :: string

definition normalizeInteger :: "string \<Rightarrow> normalized" where
  "normalizeInteger stringInteger =
     (let significantDigits = removeTrailingZeros (removeLeadingZeros stringInteger)
      in \<lparr>magnitude =
            (if String_startsWith stringInteger ''0''
             then int (length stringInteger) - 2
             else int (length stringInteger) - 1),
          coefficient = addDecimalPointToNumber significantDigits\<rparr>)"

definition normalizeFloat :: "string \<Rightarrow> normalized" where
  "normalizeFloat stringFloat =
     (let trimmedFloat = removeLeadingZeros stringFloat
      in if String_startsWith trimmedFloat ''.''
         then (let decimalDigits = drop 1 trimmedFloat;
                   significantDigits = removeLeadingZeros decimalDigits
               in \<lparr>magnitude = int (length significantDigits) - int (length decimalDigits) - 1,
                   coefficient = addDecimalPointToNumber significantDigits\<rparr>)
         else \<lparr>magnitude = String_indexOf trimmedFloat CHR ''.'' - 1,
               coefficient = addDecimalPointToNumber (String_replace trimmedFloat CHR ''.'' [])\<rparr>)"

text \<open>
  The local constants \<^verbatim>\<open>splitNumber\<close> and \<^verbatim>\<open>normalizedNumber\<close> of
  \<^verbatim>\<open>convertNumberToScientificNotation\<close>.
\<close>

definition splitNumber :: "string \<Rightarrow> string list" where
  "splitNumber stringNumber = String_split (String_replace stringNumber CHR ''E'' ''e'') CHR ''e''"

definition normalizedNumber :: "string \<Rightarrow> normalized" where
  "normalizedNumber stringNumber =
     (let originalCoefficient = hd (splitNumber stringNumber)
      in if String_includes stringNumber CHR ''.''
         then normalizeFloat originalCoefficient
         else normalizeInteger originalCoefficient)"

definition convertNumberToScientificNotation :: "string \<Rightarrow> string" where
  "convertNumberToScientificNotation stringNumber =
     (let normalizedCoefficient = coefficient (normalizedNumber stringNumber);
          magnitude =
            (if length (splitNumber stringNumber) > 1
             then plus_magnitude (parseInt (splitNumber stringNumber ! 1))
                    (magnitude (normalizedNumber stringNumber))
             else Some (magnitude (normalizedNumber stringNumber)))
      in normalizedCoefficient @ ''e'' @ template_number magnitude)"

subsection \<open>Numbers of the runtime\<close>

text \<open>
  A Number is NaN, an infinity or a finite double. A finite double is a significand times a
  power of two: \<open>Finite m e\<close> is the number \<open>m * 2 ^ e\<close> (zero of either sign is
  \<open>Finite 0 e\<close>; both print as "0"). The model takes every such pair, which covers the
  doubles and more.
\<close>

datatype number = Finite int int | PosInfinity | NegInfinity | NaN

datatype error = RangeError | TypeError

text \<open>The absolute value of \<open>Finite m e\<close> as the fraction \<open>numerator / denominator\<close>.\<close>

definition numerator :: "int \<Rightarrow> int \<Rightarrow> nat" where
  "numerator m e = (if 0 \<le> e then nat \<bar>m\<bar> * 2 ^ nat e else nat \<bar>m\<bar>)"

definition denominator :: "int \<Rightarrow> nat" where
  "denominator e = (if 0 \<le> e then 1 else 2 ^ nat (- e))"

text \<open>
  \<^verbatim>\<open>Number.prototype.toPrecision(p)\<close>, ECMA-262 21.1.3.5, for a finite \<open>x = a / b > 0\<close>.
  Step 10.a: integers \<open>e\<close> and \<open>n\<close> with \<open>10 ^ (p - 1) \<le> n < 10 ^ p\<close> such that
  \<open>n * 10 ^ (e - p + 1) - x\<close> is as close to zero as possible, the larger \<open>n\<close> on a tie.
  \<open>decimal_exponent\<close> is the \<open>e\<close> with \<open>10 ^ e \<le> x < 10 ^ (e + 1)\<close>; \<open>scaled_round\<close> is
  \<open>x * 10 ^ s\<close> rounded to the nearest integer, halves upwards; when the rounding
  reaches \<open>10 ^ p\<close> the exponent moves up by one.
\<close>

definition decimal_exponent :: "nat \<Rightarrow> nat \<Rightarrow> int" where
  "decimal_exponent a b =
     (if b \<le> a then int (length (to_radix 10 (a div b))) - 1
      else - int (length (to_radix 10 ((b - 1) div a))))"

definition scaled_round :: "nat \<Rightarrow> nat \<Rightarrow> int \<Rightarrow> nat" where
  "scaled_round a b s =
     (if 0 \<le> s then (2 * a * 10 ^ nat s + b) div (2 * b)
      else (2 * a + b * 10 ^ nat (- s)) div (2 * b * 10 ^ nat (- s)))"

definition precision_digits :: "nat \<Rightarrow> nat \<Rightarrow> nat \<Rightarrow> int \<times> nat" where
  "precision_digits a b p =
     (let e = decimal_exponent a b;
          n = scaled_round a b (int p - 1 - e)
      in if 10 ^ p \<le> n then (e + 1, n div 10) else (e, n))"

text \<open>Steps 9 to 14 of \<^verbatim>\<open>toPrecision\<close> for a finite number and \<open>1 \<le> p \<le> 100\<close>.\<close>

definition finite_toPrecision :: "int \<Rightarrow> int \<Rightarrow> nat \<Rightarrow> string" where
  "finite_toPrecision m e2 p =
     (let s = (if m < 0 then ''-'' else []);
          (e, digits) =
            (if m = 0 then (0, replicate p CHR ''0'')
             else (let (e, n) = precision_digits (numerator m e2) (denominator e2) p
                   in (e, to_radix 10 n)))
      in if e < - 6 \<or> int p \<le> e
         then s @ (if p \<noteq> 1 then take 1 digits @ ''.'' @ drop 1 digits else digits)
                @ ''e'' @ (if 0 \<le> e then ''+'' else ''-'') @ to_radix 10 (nat \<bar>e\<bar>)
         else if e = int p - 1 then s @ digits
         else if 0 \<le> e then s @ take (nat (e + 1)) digits @ ''.'' @ drop (nat (e + 1)) digits
         else s @ ''0.'' @ replicate (nat (- (e + 1))) CHR ''0'' @ digits)"

text \<open>
  Steps 4 and 5: a number that is not finite prints its name whatever the precision; a
  precision outside 1 to 100 throws a RangeError.
\<close>

definition Number_toPrecision :: "number \<Rightarrow> nat \<Rightarrow> error + string" where
  "Number_toPrecision x p =
     (case x of
        NaN \<Rightarrow> Inr ''NaN''
      | PosInfinity \<Rightarrow> Inr ''Infinity''
      | NegInfinity \<Rightarrow> Inr ''-Infinity''
      | Finite m e \<Rightarrow> if p < 1 \<or> 100 < p then Inl RangeError else Inr (finite_toPrecision m e p))"

text \<open>
  \<^verbatim>\<open>Number.prototype.toString(radix)\<close> for the radices the rule passes (2, 8 and 16): the
  digits of the integer part and, for a number with a fraction, the digits of the
  fraction. In a radix that is a power of two the expansion of a double ends; the fuel is
  its number of fraction bits. ECMA-262 leaves the digits of a fraction to the engine; the
  literals that the rule renders this way denote integers, and no theorem below depends
  on the fraction.
\<close>

fun fraction_digits :: "nat \<Rightarrow> nat \<Rightarrow> nat \<Rightarrow> nat \<Rightarrow> string" where
  "fraction_digits radix r d 0 = []"
| "fraction_digits radix r d (Suc fuel) =
     (if r = 0 then []
      else digit_char (r * radix div d) # fraction_digits radix (r * radix mod d) d fuel)"

definition finite_toString :: "int \<Rightarrow> int \<Rightarrow> nat \<Rightarrow> string" where
  "finite_toString m e radix =
     (let a = numerator m e; b = denominator e
      in (if m < 0 then ''-'' else []) @ to_radix radix (a div b) @
         (if a mod b = 0 then [] else ''.'' @ fraction_digits radix (a mod b) b (nat (- e))))"

definition Number_toString :: "number \<Rightarrow> nat \<Rightarrow> error + string" where
  "Number_toString x radix =
     (if radix < 2 \<or> 36 < radix then Inl RangeError
      else case x of
             NaN \<Rightarrow> Inr ''NaN''
           | PosInfinity \<Rightarrow> Inr ''Infinity''
           | NegInfinity \<Rightarrow> Inr ''-Infinity''
           | Finite m e \<Rightarrow> Inr (finite_toString m e radix))"

subsection \<open>Literal nodes\<close>

text \<open>
  The \<^verbatim>\<open>value\<close> of a Literal node of the syntax tree: a number, a string, a boolean,
  null, a bigint, or a regular expression object (its source and flags). The field is
  called \<open>val\<close> here.
\<close>

datatype js_value =
  JNumber number | JString string | JBoolean bool | JNull | JBigInt int | JRegExp string string

record node =
  raw :: string
  val :: js_value

text \<open>The conversion to boolean that \<^verbatim>\<open>&&\<close> applies to its left operand.\<close>

definition ToBoolean :: "js_value \<Rightarrow> bool" where
  "ToBoolean v =
     (case v of
        JNumber x \<Rightarrow> (case x of Finite m e \<Rightarrow> m \<noteq> 0 | NaN \<Rightarrow> False | _ \<Rightarrow> True)
      | JString s \<Rightarrow> s \<noteq> []
      | JBoolean b \<Rightarrow> b
      | JNull \<Rightarrow> False
      | JBigInt k \<Rightarrow> k \<noteq> 0
      | JRegExp source flags \<Rightarrow> True)"

text \<open>
  The method calls \<^verbatim>\<open>node.value.toPrecision(p)\<close> and \<^verbatim>\<open>node.value.toString(base)\<close>:
  only a number has \<^verbatim>\<open>toPrecision\<close>, and calling what is not there throws a TypeError.
\<close>

definition toPrecision :: "js_value \<Rightarrow> nat \<Rightarrow> error + string" where
  "toPrecision v p = (case v of JNumber x \<Rightarrow> Number_toPrecision x p | _ \<Rightarrow> Inl TypeError)"

definition toString :: "js_value \<Rightarrow> nat \<Rightarrow> error + string" where
  "toString v radix =
     (case v of
        JNumber x \<Rightarrow> Number_toString x radix
      | JString s \<Rightarrow> Inr s
      | JBoolean b \<Rightarrow> Inr (if b then ''true'' else ''false'')
      | JNull \<Rightarrow> Inl TypeError
      | JBigInt k \<Rightarrow>
          if radix < 2 \<or> 36 < radix then Inl RangeError
          else Inr ((if k < 0 then ''-'' else []) @ to_radix radix (nat \<bar>k\<bar>))
      | JRegExp source flags \<Rightarrow> Inr (''/'' @ source @ ''/'' @ flags))"

subsection \<open>The rule\<close>

definition isNumber :: "node \<Rightarrow> bool" where
  "isNumber node = (case val node of JNumber x \<Rightarrow> True | _ \<Rightarrow> False)"

definition getRaw :: "node \<Rightarrow> string" where
  "getRaw node = String_removeAll (raw node) CHR ''_''"

text \<open>The regular expression \<^verbatim>\<open>/^0[0-7]+$/u\<close>.\<close>

definition is_octal_digit :: "char \<Rightarrow> bool" where
  "is_octal_digit c = (c \<in> set ''01234567'')"

definition legacy_octal :: "string \<Rightarrow> bool" where
  "legacy_octal s = (case s of [] \<Rightarrow> False | c # ds \<Rightarrow> c = CHR ''0'' \<and> ds \<noteq> [] \<and> list_all is_octal_digit ds)"

definition isBaseTen :: "node \<Rightarrow> bool" where
  "isBaseTen node =
     (let prefixes = [''0x'', ''0X'', ''0b'', ''0B'', ''0o'', ''0O'']
      in list_all (\<lambda>prefix. \<not> String_startsWith (raw node) prefix) prefixes
         \<and> \<not> legacy_octal (raw node))"

definition notBaseTenLosesPrecision :: "node \<Rightarrow> error + bool" where
  "notBaseTenLosesPrecision node =
     (let rawString = String_toUpperCase (getRaw node);
          base = (if String_startsWith rawString ''0B'' then 2
                  else if String_startsWith rawString ''0X'' then 16
                  else 8)
      in case toString (val node) base of
           Inl e \<Rightarrow> Inl e
         | Inr rendered \<Rightarrow> Inr (\<not> String_endsWith rawString (String_toUpperCase rendered)))"

text \<open>The local constant \<^verbatim>\<open>requestedPrecision\<close> of \<^verbatim>\<open>baseTenLosesPrecision\<close>.\<close>

definition requestedPrecision :: "string \<Rightarrow> nat" where
  "requestedPrecision normalizedRawNumber =
     length (String_replace (hd (String_split normalizedRawNumber CHR ''e'')) CHR ''.'' [])"

definition baseTenLosesPrecision :: "node \<Rightarrow> error + bool" where
  "baseTenLosesPrecision node =
     (let normalizedRawNumber = convertNumberToScientificNotation (getRaw node)
      in if requestedPrecision normalizedRawNumber > 100 then Inr True
         else case toPrecision (val node) (requestedPrecision normalizedRawNumber) of
                Inl e \<Rightarrow> Inl e
              | Inr storedNumber \<Rightarrow>
                  Inr (normalizedRawNumber \<noteq> convertNumberToScientificNotation storedNumber))"

definition losesPrecision :: "node \<Rightarrow> error + bool" where
  "losesPrecision node =
     (if isBaseTen node then baseTenLosesPrecision node else notBaseTenLosesPrecision node)"

text \<open>
  The visitor \<^verbatim>\<open>Literal(node)\<close>: the diagnostics it hands to \<^verbatim>\<open>context.report\<close>. The
  operator \<^verbatim>\<open>&&\<close> evaluates \<^verbatim>\<open>losesPrecision(node)\<close> only when the value is truthy and
  a number.
\<close>

record report =
  messageId :: string
  reported :: node

definition Literal :: "node \<Rightarrow> error + report list" where
  "Literal node =
     (if ToBoolean (val node) \<and> isNumber node
      then (case losesPrecision node of
              Inl e \<Rightarrow> Inl e
            | Inr loses \<Rightarrow>
                Inr (if loses then [\<lparr>messageId = ''noLossOfPrecision'', reported = node\<rparr>] else []))
      else Inr [])"

section \<open>Notions used in the statements\<close>

text \<open>
  The definitions of this section are not code of the rule. They name the literals,
  digit strings and normal forms that the theorems speak about; those that follow the
  words of the specification carry the prefix \<open>spec_\<close>.
\<close>

definition all_zeros :: "string \<Rightarrow> bool" where
  "all_zeros s = list_all (\<lambda>c. c = CHR ''0'') s"

text \<open>The text \<open>d.ddd\<close>e\<open>E\<close> of a digit string \<open>d\<close> and a magnitude \<open>E\<close>.\<close>

definition scientific :: "string \<Rightarrow> int \<Rightarrow> string" where
  "scientific d E = hd d # CHR ''.'' # tl d @ ''e'' @ integer_toString E"

text \<open>A digit string that is not empty and has no leading zero.\<close>

definition significand_digits :: "string \<Rightarrow> bool" where
  "significand_digits D \<longleftrightarrow> D \<noteq> [] \<and> list_all is_digit D \<and> hd D \<noteq> CHR ''0''"

text \<open>The mantissa of a literal is its text before the exponent marker, if there is one.\<close>

definition not_exponent_marker :: "char \<Rightarrow> bool" where
  "not_exponent_marker c = (c \<noteq> CHR ''e'' \<and> c \<noteq> CHR ''E'')"

definition mantissa_of :: "string \<Rightarrow> string" where
  "mantissa_of t = takeWhile not_exponent_marker t"

definition exponent_of :: "string \<Rightarrow> string" where
  "exponent_of t = dropWhile not_exponent_marker t"

text \<open>The coefficient pattern: one digit, a point, then digits.\<close>

definition canonical_coefficient :: "string \<Rightarrow> bool" where
  "canonical_coefficient c =
     (case c of
        d # p # rest \<Rightarrow> is_digit d \<and> p = CHR ''.'' \<and> list_all is_digit rest
      | _ \<Rightarrow> False)"

definition well_formed :: "string \<Rightarrow> bool" where
  "well_formed s = canonical_coefficient (coefficient (normalizedNumber s))"

text \<open>
  The text of a decimal literal, separators removed: digits with at most one point and at
  least one digit, then optionally an exponent marker, a sign and digits. This takes in
  every DecimalLiteral of ECMA-262 (and texts with leading zeros that the grammar
  leaves out).
\<close>

definition decimal_mantissa :: "string \<Rightarrow> bool" where
  "decimal_mantissa m =
     (let i = takeWhile (\<lambda>c. c \<noteq> CHR ''.'') m;
          f = dropWhile (\<lambda>c. c \<noteq> CHR ''.'') m
      in list_all is_digit i \<and>
         (if f = [] then i \<noteq> [] else list_all is_digit (tl f) \<and> (i \<noteq> [] \<or> tl f \<noteq> [])))"

definition exponent_part :: "string \<Rightarrow> bool" where
  "exponent_part x =
     (case x of
        [] \<Rightarrow> True
      | c # r \<Rightarrow>
          (c = CHR ''e'' \<or> c = CHR ''E'') \<and>
          (let d = (case r of
                      [] \<Rightarrow> []
                    | g # r' \<Rightarrow> if g = CHR ''+'' \<or> g = CHR ''-'' then r' else r)
           in d \<noteq> [] \<and> list_all is_digit d))"

definition decimal_literal :: "string \<Rightarrow> bool" where
  "decimal_literal t = (decimal_mantissa (mantissa_of t) \<and> exponent_part (exponent_of t))"

text \<open>
  A mantissa that is zeros, a point and no fraction digit ("0."), and a mantissa that
  denotes zero.
\<close>

definition zero_point :: "string \<Rightarrow> bool" where
  "zero_point m =
     (all_zeros (takeWhile (\<lambda>c. c \<noteq> CHR ''.'') m) \<and> dropWhile (\<lambda>c. c \<noteq> CHR ''.'') m = ''.'')"

definition zero_mantissa :: "string \<Rightarrow> bool" where
  "zero_mantissa m = list_all (\<lambda>c. c = CHR ''0'' \<or> c = CHR ''.'') m"

text \<open>
  Section 4.1 of the specification, the radix classifier: a text that starts with 0x, 0b or
  0o in either case has that radix; otherwise a 0 followed by octal digits is a legacy
  octal literal; otherwise the literal is decimal (\<open>None\<close>).
\<close>

definition radix_prefix :: "string \<Rightarrow> nat option" where
  "radix_prefix text =
     (let t = String_toUpperCase (take 2 text)
      in if t = ''0X'' then Some 16 else if t = ''0B'' then Some 2
         else if t = ''0O'' then Some 8 else None)"

definition spec_radix :: "string \<Rightarrow> nat option" where
  "spec_radix text =
     (case radix_prefix text of
        Some b \<Rightarrow> Some b
      | None \<Rightarrow> if legacy_octal text then Some 8 else None)"

text \<open>
  Section 4.2 of the specification, the raw digits: the radix prefix stripped if present,
  the separators stripped, the rest in upper case.
\<close>

definition spec_rawDigits :: "string \<Rightarrow> string" where
  "spec_rawDigits text =
     String_toUpperCase
       (String_removeAll (if radix_prefix text = None then text else drop 2 text) CHR ''_'')"

text \<open>
  Section 4.3 of the specification, the magnitude of an integer-form mantissa: the length
  after stripping leading zeros, minus one, and one position less when the first character
  of the mantissa is 0.
\<close>

definition spec_integer_magnitude :: "string \<Rightarrow> int" where
  "spec_integer_magnitude mantissa =
     int (length (removeLeadingZeros mantissa)) - 1
       - (if String_startsWith mantissa ''0'' then 1 else 0)"

section \<open>Facts about the string built-ins\<close>

lemma String_split_not_Nil [simp]: "String_split s c \<noteq> []"
  by (induction s) (auto split: list.splits)

lemma String_split_without [simp]: "c \<notin> set s \<Longrightarrow> String_split s c = [s]"
  by (induction s) auto

lemma String_split_at:
  "c \<notin> set a \<Longrightarrow> String_split (a @ c # b) c = a # String_split b c"
  by (induction a) (auto split: list.splits)

lemma hd_String_split: "hd (String_split s c) = takeWhile (\<lambda>x. x \<noteq> c) s"
  by (induction s) (auto split: list.splits)

lemma String_replace_without [simp]: "c \<notin> set s \<Longrightarrow> String_replace s c r = s"
  by (induction s) auto

lemma String_replace_at:
  "c \<notin> set a \<Longrightarrow> String_replace (a @ c # b) c r = a @ r @ b"
  by (induction a) auto

lemma length_String_replace_Nil:
  "c \<in> set s \<Longrightarrow> Suc (length (String_replace s c [])) = length s"
  by (induction s) auto

lemma set_String_replace_Nil: "set (String_replace s c []) \<subseteq> set s"
  by (induction s) auto

section \<open>The two loops that strip zeros\<close>

lemma removeLeadingZeros_from_eq:
  "i \<le> length s \<Longrightarrow> list_all (\<lambda>c. c = CHR ''0'') (take i s) \<Longrightarrow>
     removeLeadingZeros_from s i = (if all_zeros s then s else dropWhile (\<lambda>c. c = CHR ''0'') s)"
proof (induction s i rule: removeLeadingZeros_from.induct)
  case (1 s i)
  show ?case
  proof (cases "i < length s")
    case False
    with "1.prems" have "take i s = s" by simp
    with "1.prems" False show ?thesis
      by (subst removeLeadingZeros_from.simps) (simp add: all_zeros_def)
  next
    case True
    note lt = this
    show ?thesis
    proof (cases "s ! i = CHR ''0''")
      case True
      have "take (Suc i) s = take i s @ [s ! i]"
        using lt by (simp add: take_Suc_conv_app_nth)
      with True "1.prems" have "list_all (\<lambda>c. c = CHR ''0'') (take (Suc i) s)" by simp
      with "1.IH" [OF lt] True lt show ?thesis
        by (subst removeLeadingZeros_from.simps) simp
    next
      case False
      have s: "s = take i s @ s ! i # drop (Suc i) s"
        using lt by (simp add: id_take_nth_drop [symmetric])
      have "dropWhile (\<lambda>c. c = CHR ''0'') s = s ! i # drop (Suc i) s"
        using "1.prems" False
        by (subst s) (simp add: dropWhile_append3 list_all_iff dropWhile_append)
      moreover have "\<not> all_zeros s"
        using False lt by (auto simp: all_zeros_def list_all_length)
      moreover have "drop i s = s ! i # drop (Suc i) s"
        using lt by (simp add: Cons_nth_drop_Suc)
      ultimately show ?thesis using False lt
        by (subst removeLeadingZeros_from.simps) simp
    qed
  qed
qed

lemma removeLeadingZeros_eq:
  "removeLeadingZeros s = (if all_zeros s then s else dropWhile (\<lambda>c. c = CHR ''0'') s)"
  by (simp add: removeLeadingZeros_def removeLeadingZeros_from_eq)

lemma removeTrailingZeros_from_eq:
  "i \<le> length s \<Longrightarrow> list_all (\<lambda>c. c = CHR ''0'') (drop i s) \<Longrightarrow>
     removeTrailingZeros_from s i =
       (if all_zeros s then s else rev (dropWhile (\<lambda>c. c = CHR ''0'') (rev s)))"
proof (induction i)
  case 0
  then show ?case by (simp add: all_zeros_def)
next
  case (Suc i)
  then have lt: "i < length s" by simp
  show ?case
  proof (cases "s ! i = CHR ''0''")
    case True
    have "drop i s = s ! i # drop (Suc i) s"
      using lt by (simp add: Cons_nth_drop_Suc)
    with True Suc.prems have "list_all (\<lambda>c. c = CHR ''0'') (drop i s)" by simp
    with Suc.IH lt True show ?thesis by simp
  next
    case False
    have s: "s = take i s @ s ! i # drop (Suc i) s"
      using lt by (simp add: id_take_nth_drop [symmetric])
    have "rev s = rev (drop (Suc i) s) @ s ! i # rev (take i s)"
      by (subst s) simp
    then have "dropWhile (\<lambda>c. c = CHR ''0'') (rev s) = s ! i # rev (take i s)"
      using Suc.prems False by (simp add: dropWhile_append3 list_all_iff)
    then have "rev (dropWhile (\<lambda>c. c = CHR ''0'') (rev s)) = take (Suc i) s"
      using lt by (simp add: take_Suc_conv_app_nth)
    moreover have "\<not> all_zeros s"
      using False lt by (auto simp: all_zeros_def list_all_length)
    ultimately show ?thesis using False by simp
  qed
qed

lemma removeTrailingZeros_eq:
  "removeTrailingZeros s =
     (if all_zeros s then s else rev (dropWhile (\<lambda>c. c = CHR ''0'') (rev s)))"
  by (simp add: removeTrailingZeros_def removeTrailingZeros_from_eq)

section \<open>Digits\<close>

lemma digit_table_distinct: "distinct ''0123456789abcdefghijklmnopqrstuvwxyz''"
  by simp

lemma digit_char_eq_iff:
  "d < 36 \<Longrightarrow> d' < 36 \<Longrightarrow> digit_char d = digit_char d' \<longleftrightarrow> d = d'"
  unfolding digit_char_def using digit_table_distinct
  by (subst nth_eq_iff_index_eq) simp_all

lemma digit_char_0: "digit_char 0 = CHR ''0''"
  by (simp add: digit_char_def)

lemma digit_char_zero_iff: "d < 36 \<Longrightarrow> digit_char d = CHR ''0'' \<longleftrightarrow> d = 0"
  using digit_char_eq_iff [of d 0] by (simp add: digit_char_0)

lemma below_ten_cases:
  "d < 10 \<Longrightarrow> d = 0 \<or> d = 1 \<or> d = 2 \<or> d = 3 \<or> d = 4 \<or> d = 5 \<or> d = 6 \<or> d = 7 \<or> d = 8 \<or> d = (9::nat)"
  by arith

lemma is_digit_digit_char: "d < 10 \<Longrightarrow> is_digit (digit_char d)"
  using below_ten_cases [of d] by (auto simp: is_digit_def digit_char_def)

lemma digit_value_digit_char: "d < 10 \<Longrightarrow> digit_value (digit_char d) = d"
  using below_ten_cases [of d] by (auto simp: digit_value_def digit_char_def)

lemma to_radix_not_Nil [simp]: "to_radix b n \<noteq> []"
  by (subst to_radix.simps) simp

lemma to_radix_small: "n < b \<Longrightarrow> to_radix b n = [digit_char n]"
  by (subst to_radix.simps) simp

lemma to_radix_step:
  "2 \<le> b \<Longrightarrow> b \<le> n \<Longrightarrow> to_radix b n = to_radix b (n div b) @ [digit_char (n mod b)]"
  by (subst to_radix.simps) simp

lemma set_to_radix: "2 \<le> b \<Longrightarrow> set (to_radix b n) \<subseteq> digit_char ` {..<b}"
proof (induction b n rule: to_radix.induct)
  case (1 b n)
  show ?case
  proof (cases "n < b")
    case True
    then show ?thesis by (simp add: to_radix_small)
  next
    case False
    with "1.prems" have "set (to_radix b (n div b)) \<subseteq> digit_char ` {..<b}"
      by (intro "1.IH") auto
    moreover have "n mod b < b" using "1.prems" by simp
    ultimately show ?thesis using False "1.prems" by (simp add: to_radix_step)
  qed
qed

lemma list_all_is_digit_to_radix: "list_all is_digit (to_radix 10 n)"
  using set_to_radix [of 10 n] by (auto simp: list_all_iff is_digit_digit_char)

lemma hd_to_radix:
  "2 \<le> b \<Longrightarrow> b \<le> 36 \<Longrightarrow> 0 < n \<Longrightarrow> hd (to_radix b n) \<noteq> CHR ''0''"
proof (induction b n rule: to_radix.induct)
  case (1 b n)
  show ?case
  proof (cases "n < b")
    case True
    with "1.prems" show ?thesis by (simp add: to_radix_small digit_char_zero_iff)
  next
    case False
    with "1.prems" have "0 < n div b" by (simp add: div_greater_zero_iff)
    with "1.prems" False have "hd (to_radix b (n div b)) \<noteq> CHR ''0''"
      by (intro "1.IH") auto
    with False "1.prems" show ?thesis by (simp add: to_radix_step)
  qed
qed

lemma digits_value_snoc: "digits_value (z @ [c]) = 10 * digits_value z + digit_value c"
  by (simp add: digits_value_def)

lemma digits_value_to_radix: "digits_value (to_radix 10 n) = n"
proof (induction "10::nat" n rule: to_radix.induct)
  case (1 n)
  show ?case
  proof (cases "n < 10")
    case True
    then show ?thesis
      by (simp add: to_radix_small digits_value_def digit_value_digit_char)
  next
    case False
    with 1 have "digits_value (to_radix 10 (n div 10)) = n div 10" by simp
    with False show ?thesis
      by (simp add: to_radix_step digits_value_snoc digit_value_digit_char)
  qed
qed

lemma to_radix_upper: "n < 10 ^ length (to_radix 10 n)"
proof (induction "10::nat" n rule: to_radix.induct)
  case (1 n)
  show ?case
  proof (cases "n < 10")
    case True
    then show ?thesis by (simp add: to_radix_small)
  next
    case False
    with 1 have "n div 10 < 10 ^ length (to_radix 10 (n div 10))" by simp
    then have "n < 10 * 10 ^ length (to_radix 10 (n div 10))" by arith
    with False show ?thesis by (simp add: to_radix_step)
  qed
qed

lemma to_radix_lower: "0 < n \<Longrightarrow> 10 ^ (length (to_radix 10 n) - 1) \<le> n"
proof (induction "10::nat" n rule: to_radix.induct)
  case (1 n)
  show ?case
  proof (cases "n < 10")
    case True
    with "1.prems" show ?thesis by (simp add: to_radix_small)
  next
    case False
    then have pos: "0 < n div 10" by simp
    with 1 False have "10 ^ (length (to_radix 10 (n div 10)) - 1) \<le> n div 10" by simp
    then have "10 * 10 ^ (length (to_radix 10 (n div 10)) - 1) \<le> n" by arith
    moreover have "length (to_radix 10 (n div 10)) \<noteq> 0" by simp
    ultimately show ?thesis using False
      by (simp add: to_radix_step flip: power_Suc) 
  qed
qed

lemma is_digit_simps:
  "\<not> is_digit CHR ''-''" "\<not> is_digit CHR ''+''" "\<not> is_digit CHR ''.''" "\<not> is_digit CHR ''e''"
  "\<not> is_digit CHR ''E''" "\<not> is_digit CHR ''_''" "is_digit CHR ''0''"
  by (simp_all add: is_digit_def)

lemma is_digit_not_whitespace: "is_digit c \<Longrightarrow> \<not> is_whitespace c"
  by (auto simp: is_digit_def is_whitespace_def)

lemma takeWhile_all: "list_all P z \<Longrightarrow> takeWhile P z = z"
  by (simp add: list_all_iff)

lemma parseInt_digits:
  assumes "z \<noteq> []" "list_all is_digit z"
  shows "parseInt z = Some (int (digits_value z))"
proof -
  obtain c r where z: "z = c # r" using assms by (cases z) auto
  with assms have c: "is_digit c" by simp
  then have "c \<noteq> CHR ''+''" "c \<noteq> CHR ''-''" "\<not> is_whitespace c"
    using is_digit_simps is_digit_not_whitespace by auto
  then have "dropWhile is_whitespace z = z" "hd z \<noteq> CHR ''+''" "hd z \<noteq> CHR ''-''"
    using z by simp_all
  then show ?thesis
    using assms by (simp add: parseInt_def Let_def takeWhile_all)
qed

lemma parseInt_minus_digits:
  assumes "z \<noteq> []" "list_all is_digit z"
  shows "parseInt (CHR ''-'' # z) = Some (- int (digits_value z))"
proof -
  have "dropWhile is_whitespace (CHR ''-'' # z) = CHR ''-'' # z"
    by (simp add: is_whitespace_def)
  then show ?thesis
    using assms by (simp add: parseInt_def Let_def takeWhile_all)
qed

lemma parseInt_integer_toString: "parseInt (integer_toString k) = Some k"
  by (simp add: integer_toString_def parseInt_digits parseInt_minus_digits
      list_all_is_digit_to_radix digits_value_to_radix)

lemma set_integer_toString: "c \<in> set (integer_toString k) \<Longrightarrow> c = CHR ''-'' \<or> is_digit c"
  using list_all_is_digit_to_radix [of "nat k"] list_all_is_digit_to_radix [of "nat (- k)"]
  by (auto simp: integer_toString_def list_all_iff split: if_splits)

section \<open>The normalizer on a mantissa\<close>

lemma all_zeros_Nil [simp]: "all_zeros []"
  by (simp add: all_zeros_def)

lemma all_zeros_Cons [simp]: "all_zeros (c # s) \<longleftrightarrow> c = CHR ''0'' \<and> all_zeros s"
  by (simp add: all_zeros_def)

lemma all_zeros_append [simp]: "all_zeros (a @ b) \<longleftrightarrow> all_zeros a \<and> all_zeros b"
  by (simp add: all_zeros_def)

lemma dropWhile_zeros_all: "all_zeros a \<Longrightarrow> dropWhile (\<lambda>c. c = CHR ''0'') (a @ b) = dropWhile (\<lambda>c. c = CHR ''0'') b"
  by (induction a) auto

lemma dropWhile_zeros_not_all:
  "\<not> all_zeros a \<Longrightarrow> dropWhile (\<lambda>c. c = CHR ''0'') (a @ b) = dropWhile (\<lambda>c. c = CHR ''0'') a @ b"
  by (induction a) auto

lemma dropWhile_zeros_hd:
  "\<not> all_zeros a \<Longrightarrow> dropWhile (\<lambda>c. c = CHR ''0'') a \<noteq> [] \<and> hd (dropWhile (\<lambda>c. c = CHR ''0'') a) \<noteq> CHR ''0''"
  by (induction a) auto

lemma removeLeadingZeros_nonzero_hd: "s \<noteq> [] \<Longrightarrow> hd s \<noteq> CHR ''0'' \<Longrightarrow> removeLeadingZeros s = s"
  by (cases s) (auto simp: removeLeadingZeros_eq)

lemma removeTrailingZeros_nonzero_last: "s \<noteq> [] \<Longrightarrow> last s \<noteq> CHR ''0'' \<Longrightarrow> removeTrailingZeros s = s"
proof -
  assume "s \<noteq> []" "last s \<noteq> CHR ''0''"
  then have "dropWhile (\<lambda>c. c = CHR ''0'') (rev s) = rev s"
    by (cases "rev s") (auto simp: last_rev [symmetric] simp del: last_rev)
  then show ?thesis by (simp add: removeTrailingZeros_eq)
qed

lemma removeLeadingZeros_not_Nil: "s \<noteq> [] \<Longrightarrow> removeLeadingZeros s \<noteq> []"
  using dropWhile_zeros_hd [of s] by (auto simp: removeLeadingZeros_eq)

lemma removeTrailingZeros_not_Nil: "s \<noteq> [] \<Longrightarrow> removeTrailingZeros s \<noteq> []"
proof -
  assume "s \<noteq> []"
  have "\<not> all_zeros s \<Longrightarrow> dropWhile (\<lambda>c. c = CHR ''0'') (rev s) \<noteq> []"
    using dropWhile_zeros_hd [of "rev s"] by (simp add: all_zeros_def list_all_iff)
  with \<open>s \<noteq> []\<close> show ?thesis by (auto simp: removeTrailingZeros_eq)
qed

lemma hd_removeTrailingZeros: "hd (removeTrailingZeros s) = hd s"
proof (cases "all_zeros s")
  case True
  then show ?thesis by (simp add: removeTrailingZeros_eq)
next
  case False
  then have "\<not> all_zeros (rev s)" by (simp add: all_zeros_def list_all_iff)
  then obtain z r where zr: "rev s = z @ r" "all_zeros z" "r \<noteq> []" "hd r \<noteq> CHR ''0''"
    using dropWhile_zeros_hd [of "rev s"]
    by (metis takeWhile_dropWhile_id all_zeros_def list_all_iff set_takeWhileD)
  then have "dropWhile (\<lambda>c. c = CHR ''0'') (rev s) = r"
    by (cases r) (auto simp: dropWhile_zeros_all)
  moreover have "s = rev r @ rev z" using zr(1) by (metis rev_append rev_rev_ident)
  ultimately show ?thesis using False zr(3) by (simp add: removeTrailingZeros_eq)
qed

lemma addDecimalPointToNumber_Cons: "addDecimalPointToNumber (c # s) = c # CHR ''.'' # s"
  by (simp add: addDecimalPointToNumber_def template_first_def)

lemma addDecimalPointToNumber_Nil: "addDecimalPointToNumber [] = ''undefined.''"
  by (simp add: addDecimalPointToNumber_def template_first_def)

lemma String_startsWith_single: "String_startsWith s [c] \<longleftrightarrow> s \<noteq> [] \<and> hd s = c"
  by (cases s) (auto simp: String_startsWith_def)

lemma takeWhile_until: "c \<notin> set a \<Longrightarrow> takeWhile (\<lambda>x. x \<noteq> c) (a @ c # b) = a"
  by (induction a) auto

lemma String_indexOf_at: "c \<notin> set a \<Longrightarrow> String_indexOf (a @ c # b) c = int (length a)"
  by (simp add: String_indexOf_def takeWhile_until)

text \<open>A mantissa with a point whose integer part has a digit other than zero.\<close>

lemma normalizeFloat_ge_one:
  assumes "list_all is_digit a" "\<not> all_zeros a"
  defines "a' \<equiv> dropWhile (\<lambda>c. c = CHR ''0'') a"
  shows "normalizeFloat (a @ CHR ''.'' # b) =
           \<lparr>magnitude = int (length a') - 1, coefficient = hd a' # CHR ''.'' # tl a' @ b\<rparr>"
proof -
  have a': "a' \<noteq> []" "hd a' \<noteq> CHR ''0''"
    using assms dropWhile_zeros_hd [of a] by auto
  have "set a' \<subseteq> set a" unfolding a'_def by (auto dest: set_dropWhileD)
  with assms have dig: "list_all is_digit a'" by (auto simp: list_all_iff)
  then have nodot: "CHR ''.'' \<notin> set a'" using is_digit_simps by (auto simp: list_all_iff)
  then have hd: "hd a' \<noteq> CHR ''.''" using a' by (cases a') auto
  have trimmed: "removeLeadingZeros (a @ CHR ''.'' # b) = a' @ CHR ''.'' # b"
    using assms by (simp add: removeLeadingZeros_eq dropWhile_zeros_not_all a'_def)
  obtain c r where cr: "a' = c # r" using a' by (cases a') auto
  have "String_indexOf (a' @ CHR ''.'' # b) CHR ''.'' = int (length a')"
    "String_replace (a' @ CHR ''.'' # b) CHR ''.'' [] = a' @ b"
    using nodot by (simp_all add: String_indexOf_at String_replace_at)
  then show ?thesis
    using a' hd cr
    by (simp add: normalizeFloat_def trimmed Let_def String_startsWith_single
        addDecimalPointToNumber_Cons)
qed

text \<open>A mantissa with a point whose integer part is empty or all zeros.\<close>

lemma normalizeFloat_below_one:
  assumes "all_zeros a"
  shows "normalizeFloat (a @ CHR ''.'' # b) =
           \<lparr>magnitude = int (length (removeLeadingZeros b)) - int (length b) - 1,
            coefficient = addDecimalPointToNumber (removeLeadingZeros b)\<rparr>"
proof -
  have "removeLeadingZeros (a @ CHR ''.'' # b) = CHR ''.'' # b"
    using assms by (simp add: removeLeadingZeros_eq dropWhile_zeros_all)
  then show ?thesis
    by (simp add: normalizeFloat_def Let_def String_startsWith_single)
qed

lemma normalizeInteger_eq:
  "normalizeInteger s =
     \<lparr>magnitude = int (length s) - 1 - (if s \<noteq> [] \<and> hd s = CHR ''0'' then 1 else 0),
      coefficient = addDecimalPointToNumber (removeTrailingZeros (removeLeadingZeros s))\<rparr>"
  by (simp add: normalizeInteger_def String_startsWith_single)

section \<open>Splitting off the exponent\<close>

lemma splitNumber_plain:
  "CHR ''e'' \<notin> set m \<Longrightarrow> CHR ''E'' \<notin> set m \<Longrightarrow> splitNumber m = [m]"
  by (simp add: splitNumber_def)

lemma splitNumber_exponent:
  assumes "CHR ''e'' \<notin> set m" "CHR ''E'' \<notin> set m" "CHR ''e'' \<notin> set x" "CHR ''E'' \<notin> set x"
  shows "splitNumber (m @ CHR ''e'' # x) = [m, x]"
    and "splitNumber (m @ CHR ''E'' # x) = [m, x]"
proof -
  have "CHR ''E'' \<notin> set (m @ CHR ''e'' # x)" using assms by simp
  then show "splitNumber (m @ CHR ''e'' # x) = [m, x]"
    using assms by (simp add: splitNumber_def String_split_at del: set_append)
  show "splitNumber (m @ CHR ''E'' # x) = [m, x]"
    using assms by (simp add: splitNumber_def String_replace_at String_split_at)
qed

lemma hd_splitNumber_no_e: "CHR ''e'' \<notin> set (hd (splitNumber s))"
  unfolding splitNumber_def hd_String_split by (auto dest: set_takeWhileD)

lemma integer_toString_no_letters:
  "CHR ''e'' \<notin> set (integer_toString k)" "CHR ''E'' \<notin> set (integer_toString k)"
  "CHR ''.'' \<notin> set (integer_toString k)"
  using set_integer_toString [of _ k] is_digit_simps by auto

section \<open>The normal form of a mantissa with an exponent\<close>

lemma normalizedNumber_mantissa:
  assumes "CHR ''e'' \<notin> set m" "CHR ''E'' \<notin> set m" "CHR ''.'' \<notin> set x"
    "splitNumber (m @ x) = m # rest"
  shows "normalizedNumber (m @ x) =
           (if CHR ''.'' \<in> set m then normalizeFloat m else normalizeInteger m)"
  using assms by (simp add: normalizedNumber_def String_includes_def)

lemma convert_plain:
  assumes "CHR ''e'' \<notin> set m" "CHR ''E'' \<notin> set m"
  defines "N \<equiv> (if CHR ''.'' \<in> set m then normalizeFloat m else normalizeInteger m)"
  shows "convertNumberToScientificNotation m = coefficient N @ ''e'' @ integer_toString (magnitude N)"
proof -
  have s: "splitNumber m = [m]" using assms by (simp add: splitNumber_plain)
  then have "normalizedNumber m = N"
    using normalizedNumber_mantissa [of m "[]" "[]"] assms by simp
  then show ?thesis
    by (simp add: convertNumberToScientificNotation_def s template_number_def)
qed

lemma convert_exponent:
  assumes "CHR ''e'' \<notin> set m" "CHR ''E'' \<notin> set m"
  defines "N \<equiv> (if CHR ''.'' \<in> set m then normalizeFloat m else normalizeInteger m)"
  shows "convertNumberToScientificNotation (m @ CHR ''e'' # integer_toString k) =
           coefficient N @ ''e'' @ integer_toString (k + magnitude N)"
proof -
  have s: "splitNumber (m @ CHR ''e'' # integer_toString k) = [m, integer_toString k]"
    using assms integer_toString_no_letters by (simp add: splitNumber_exponent)
  then have "normalizedNumber (m @ CHR ''e'' # integer_toString k) = N"
    using normalizedNumber_mantissa [of m "CHR ''e'' # integer_toString k" "[integer_toString k]"]
      assms integer_toString_no_letters by simp
  then show ?thesis
    by (simp add: convertNumberToScientificNotation_def s template_number_def
        plus_magnitude_def parseInt_integer_toString)
qed

lemma convert_examples:
  "convertNumberToScientificNotation ''123.45'' = ''1.2345e2''"
  "convertNumberToScientificNotation ''1.2345e2'' = ''1.2345e2''"
  "convertNumberToScientificNotation ''12345e-2'' = ''1.2345e2''"
  by code_simp+

lemma digits_no_letters:
  "list_all is_digit a \<Longrightarrow> CHR ''e'' \<notin> set a \<and> CHR ''E'' \<notin> set a \<and> CHR ''.'' \<notin> set a"
  using is_digit_simps by (auto simp: list_all_iff)

lemma nonzero_hd_not_all_zeros: "a \<noteq> [] \<Longrightarrow> hd a \<noteq> CHR ''0'' \<Longrightarrow> \<not> all_zeros a"
  by (cases a) auto

lemma dropWhile_zeros_nonzero_hd:
  "a \<noteq> [] \<Longrightarrow> hd a \<noteq> CHR ''0'' \<Longrightarrow> dropWhile (\<lambda>c. c = CHR ''0'') a = a"
  by (cases a) auto

lemma normalizeFloat_digits:
  assumes "list_all is_digit a" "a \<noteq> []" "hd a \<noteq> CHR ''0''"
  shows "normalizeFloat (a @ CHR ''.'' # b) =
           \<lparr>magnitude = int (length a) - 1, coefficient = hd a # CHR ''.'' # tl a @ b\<rparr>"
  using normalizeFloat_ge_one [of a b] assms
  by (simp add: nonzero_hd_not_all_zeros dropWhile_zeros_nonzero_hd)

lemma normalizeFloat_small:
  assumes "d \<noteq> []" "hd d \<noteq> CHR ''0''"
  shows "normalizeFloat (''0.'' @ replicate j CHR ''0'' @ d) =
           \<lparr>magnitude = - int j - 1, coefficient = hd d # CHR ''.'' # tl d\<rparr>"
proof -
  have z: "all_zeros (replicate j CHR ''0'')" by (simp add: all_zeros_def list_all_iff)
  then have "removeLeadingZeros (replicate j CHR ''0'' @ d) = d"
    using assms
    by (simp add: removeLeadingZeros_eq dropWhile_zeros_all dropWhile_zeros_nonzero_hd
        nonzero_hd_not_all_zeros)
  moreover obtain c r where "d = c # r" using assms by (cases d) auto
  ultimately show ?thesis
    using normalizeFloat_below_one [of "''0''" "replicate j CHR ''0'' @ d"]
    by (simp add: addDecimalPointToNumber_Cons)
qed

lemma normalizeInteger_digits:
  assumes "d \<noteq> []" "hd d \<noteq> CHR ''0''" "last d \<noteq> CHR ''0''"
  shows "normalizeInteger d =
           \<lparr>magnitude = int (length d) - 1, coefficient = hd d # CHR ''.'' # tl d\<rparr>"
proof -
  obtain c r where "d = c # r" using assms by (cases d) auto
  then show ?thesis
    using assms
    by (simp add: normalizeInteger_eq removeLeadingZeros_nonzero_hd
        removeTrailingZeros_nonzero_last addDecimalPointToNumber_Cons)
qed

section \<open>The digits that toPrecision prints\<close>

lemma numerator_pos: "m \<noteq> 0 \<Longrightarrow> 0 < numerator m e"
  by (simp add: numerator_def)

lemma denominator_pos: "0 < denominator e"
  by (simp add: denominator_def)

text \<open>\<open>10 ^ e \<le> a / b\<close>, written without division.\<close>

lemma decimal_exponent_lower:
  assumes "0 < a" "0 < b"
  shows "0 \<le> decimal_exponent a b \<Longrightarrow> b * 10 ^ nat (decimal_exponent a b) \<le> a"
    and "decimal_exponent a b < 0 \<Longrightarrow> b \<le> a * 10 ^ nat (- decimal_exponent a b)"
proof -
  show "b * 10 ^ nat (decimal_exponent a b) \<le> a" if "0 \<le> decimal_exponent a b"
  proof (cases "b \<le> a")
    case True
    then have q: "0 < a div b" using assms by (simp add: div_greater_zero_iff)
    have "nat (decimal_exponent a b) = length (to_radix 10 (a div b)) - 1"
      using True by (simp add: decimal_exponent_def)
    moreover have "10 ^ (length (to_radix 10 (a div b)) - 1) \<le> a div b"
      using q by (rule to_radix_lower)
    ultimately have "b * 10 ^ nat (decimal_exponent a b) \<le> b * (a div b)" by simp
    also have "\<dots> \<le> a" by simp
    finally show ?thesis .
  next
    case False
    then have "decimal_exponent a b < 0"
      using to_radix_not_Nil [of 10 "(b - 1) div a"] by (simp add: decimal_exponent_def)
    with that show ?thesis by simp
  qed
  show "b \<le> a * 10 ^ nat (- decimal_exponent a b)" if "decimal_exponent a b < 0"
  proof (cases "b \<le> a")
    case True
    then have "0 \<le> decimal_exponent a b"
      using to_radix_not_Nil [of 10 "a div b"]
      by (cases "to_radix 10 (a div b)") (simp_all add: decimal_exponent_def)
    with that show ?thesis by simp
  next
    case False
    define k where "k = length (to_radix 10 ((b - 1) div a))"
    have "(b - 1) div a < 10 ^ k" unfolding k_def by (rule to_radix_upper)
    then have "b - 1 < a * 10 ^ k"
      using assms by (simp add: div_less_iff_less_mult mult.commute)
    then have "b \<le> a * 10 ^ k" using assms by simp
    moreover have "nat (- decimal_exponent a b) = k"
      using False by (simp add: decimal_exponent_def k_def)
    ultimately show ?thesis by simp
  qed
qed

lemma scaled_round_pos:
  assumes "0 < a" "0 < b" "1 \<le> p"
  shows "0 < scaled_round a b (int p - 1 - decimal_exponent a b)"
proof -
  define e where "e = decimal_exponent a b"
  define s where "s = int p - 1 - e"
  show ?thesis
  proof (cases "0 \<le> e")
    case True
    then have le: "b * 10 ^ nat e \<le> a"
      using decimal_exponent_lower(1) [OF assms(1,2)] by (simp add: e_def)
    have "b \<le> b * 10 ^ nat e" by simp
    from this le have ba: "b \<le> a" by (rule order_trans)
    show ?thesis
    proof (cases "0 \<le> s")
      case True
      have "a \<le> a * 10 ^ nat s" by simp
      with ba have "b \<le> a * 10 ^ nat s" by (rule order_trans)
      then have "2 * b \<le> 2 * a * 10 ^ nat s + b" by simp
      then have "0 < (2 * a * 10 ^ nat s + b) div (2 * b)"
        using assms by (simp add: div_greater_zero_iff)
      with True show ?thesis by (simp add: scaled_round_def s_def e_def)
    next
      case False
      then have "nat (- s) \<le> nat e" using assms by (simp add: s_def)
      then have "(10::nat) ^ nat (- s) \<le> 10 ^ nat e" by (intro power_increasing) simp_all
      then have "b * 10 ^ nat (- s) \<le> b * 10 ^ nat e" by (intro mult_le_mono2)
      from this le have "b * 10 ^ nat (- s) \<le> a" by (rule order_trans)
      then have "2 * b * 10 ^ nat (- s) \<le> 2 * a + b * 10 ^ nat (- s)" by simp
      then have "0 < (2 * a + b * 10 ^ nat (- s)) div (2 * b * 10 ^ nat (- s))"
        using assms by (simp add: div_greater_zero_iff)
      with False show ?thesis by (simp add: scaled_round_def s_def e_def)
    qed
  next
    case False
    then have le: "b \<le> a * 10 ^ nat (- e)"
      using decimal_exponent_lower(2) [OF assms(1,2)] by (simp add: e_def)
    from False assms have s: "0 \<le> s" "nat (- e) \<le> nat s" by (simp_all add: s_def)
    then have "(10::nat) ^ nat (- e) \<le> 10 ^ nat s" by (intro power_increasing) simp_all
    then have "a * 10 ^ nat (- e) \<le> a * 10 ^ nat s" by (intro mult_le_mono2)
    with le have "b \<le> a * 10 ^ nat s" by (rule order_trans)
    then have "2 * b \<le> 2 * a * 10 ^ nat s + b" by simp
    then have "0 < (2 * a * 10 ^ nat s + b) div (2 * b)"
      using assms by (simp add: div_greater_zero_iff)
    with s show ?thesis by (simp add: scaled_round_def s_def e_def)
  qed
qed

lemma precision_digits_pos:
  assumes "0 < a" "0 < b" "1 \<le> p"
  shows "0 < snd (precision_digits a b p)"
proof -
  have "0 < scaled_round a b (int p - 1 - decimal_exponent a b)"
    using assms by (rule scaled_round_pos)
  moreover have "0 < n div 10" if "10 ^ p \<le> n" for n :: nat
  proof -
    have "(10::nat) ^ 1 \<le> 10 ^ p" using assms by (intro power_increasing) simp_all
    with that have "10 \<le> n" by simp
    then show ?thesis by simp
  qed
  ultimately show ?thesis by (simp add: precision_digits_def Let_def)
qed

text \<open>The digit string of \<open>finite_toPrecision\<close>: not empty, digits only, no leading zero.\<close>

lemma significand_digits_to_radix: "0 < n \<Longrightarrow> significand_digits (to_radix 10 n)"
  by (simp add: significand_digits_def list_all_is_digit_to_radix hd_to_radix)

section \<open>The mantissa that the normalizer reads\<close>

lemma hd_splitNumber: "hd (splitNumber s) = mantissa_of s"
  unfolding splitNumber_def hd_String_split mantissa_of_def
  by (induction s) (auto simp: not_exponent_marker_def)

lemma normalizedNumber_eq:
  "normalizedNumber s =
     (if CHR ''.'' \<in> set s then normalizeFloat (mantissa_of s) else normalizeInteger (mantissa_of s))"
  by (simp add: normalizedNumber_def hd_splitNumber String_includes_def)

lemma mantissa_of_plain:
  "CHR ''e'' \<notin> set m \<Longrightarrow> CHR ''E'' \<notin> set m \<Longrightarrow> mantissa_of m = m"
  unfolding mantissa_of_def by (induction m) (auto simp: not_exponent_marker_def)

lemma mantissa_of_exponent:
  "CHR ''e'' \<notin> set m \<Longrightarrow> CHR ''E'' \<notin> set m \<Longrightarrow> mantissa_of (m @ CHR ''e'' # x) = m"
  unfolding mantissa_of_def by (induction m) (auto simp: not_exponent_marker_def)

lemma set_removeLeadingZeros: "set (removeLeadingZeros s) \<subseteq> set s"
  by (auto simp: removeLeadingZeros_eq dest: set_dropWhileD)

lemma set_removeTrailingZeros: "set (removeTrailingZeros s) \<subseteq> set s"
  by (auto simp: removeTrailingZeros_eq dest: set_dropWhileD)

lemma list_all_subset: "set xs \<subseteq> set ys \<Longrightarrow> list_all P ys \<Longrightarrow> list_all P xs"
  by (auto simp: list_all_iff)

section \<open>Coefficients of well-formed mantissas\<close>

lemma canonical_coefficient_Cons:
  "canonical_coefficient (d # CHR ''.'' # rest) \<longleftrightarrow> is_digit d \<and> list_all is_digit rest"
  by (simp add: canonical_coefficient_def)

lemma coefficient_normalizeInteger:
  assumes "list_all is_digit s" "s \<noteq> []"
  shows "canonical_coefficient (coefficient (normalizeInteger s))"
    and "\<not> all_zeros s \<Longrightarrow> hd (coefficient (normalizeInteger s)) \<noteq> CHR ''0''"
proof -
  define sig where "sig = removeTrailingZeros (removeLeadingZeros s)"
  have ne: "sig \<noteq> []"
    using assms by (simp add: sig_def removeLeadingZeros_not_Nil removeTrailingZeros_not_Nil)
  have "set sig \<subseteq> set s"
    using set_removeLeadingZeros [of s] set_removeTrailingZeros [of "removeLeadingZeros s"]
    by (auto simp: sig_def)
  with assms have dig: "list_all is_digit sig" by (rule_tac list_all_subset)
  obtain c r where cr: "sig = c # r" using ne by (cases sig) auto
  have coef: "coefficient (normalizeInteger s) = c # CHR ''.'' # r"
    by (simp add: normalizeInteger_eq sig_def [symmetric] cr addDecimalPointToNumber_Cons)
  show "canonical_coefficient (coefficient (normalizeInteger s))"
    using dig cr by (simp add: coef canonical_coefficient_Cons)
  show "hd (coefficient (normalizeInteger s)) \<noteq> CHR ''0''" if "\<not> all_zeros s"
  proof -
    have "hd sig = hd (removeLeadingZeros s)" by (simp add: sig_def hd_removeTrailingZeros)
    also have "\<dots> \<noteq> CHR ''0''"
      using that dropWhile_zeros_hd [of s] by (simp add: removeLeadingZeros_eq)
    finally show ?thesis by (simp add: coef cr)
  qed
qed

lemma coefficient_normalizeFloat:
  assumes "list_all is_digit a" "list_all is_digit b" "\<not> all_zeros a \<or> b \<noteq> []"
  shows "canonical_coefficient (coefficient (normalizeFloat (a @ CHR ''.'' # b)))"
    and "\<not> (all_zeros a \<and> all_zeros b) \<Longrightarrow>
           hd (coefficient (normalizeFloat (a @ CHR ''.'' # b))) \<noteq> CHR ''0''"
proof -
  show "canonical_coefficient (coefficient (normalizeFloat (a @ CHR ''.'' # b)))"
  proof (cases "all_zeros a")
    case False
    define a' where "a' = dropWhile (\<lambda>c. c = CHR ''0'') a"
    have ne: "a' \<noteq> []" using False dropWhile_zeros_hd [of a] by (simp add: a'_def)
    have "set a' \<subseteq> set a" by (auto simp: a'_def dest: set_dropWhileD)
    with assms have "list_all is_digit a'" by (rule_tac list_all_subset)
    moreover obtain c r where "a' = c # r" using ne by (cases a') auto
    ultimately show ?thesis
      using normalizeFloat_ge_one [OF assms(1) False, of b] assms
      by (simp add: a'_def [symmetric] canonical_coefficient_Cons)
  next
    case True
    with assms have b: "b \<noteq> []" by simp
    define sig where "sig = removeLeadingZeros b"
    have ne: "sig \<noteq> []" using b by (simp add: sig_def removeLeadingZeros_not_Nil)
    have "list_all is_digit sig"
      using set_removeLeadingZeros [of b] assms(2) unfolding sig_def by (rule list_all_subset)
    moreover obtain c r where "sig = c # r" using ne by (cases sig) auto
    ultimately show ?thesis
      using normalizeFloat_below_one [OF True, of b]
      by (simp add: sig_def [symmetric] addDecimalPointToNumber_Cons canonical_coefficient_Cons)
  qed
  show "hd (coefficient (normalizeFloat (a @ CHR ''.'' # b))) \<noteq> CHR ''0''"
    if "\<not> (all_zeros a \<and> all_zeros b)"
  proof (cases "all_zeros a")
    case False
    then show ?thesis
      using normalizeFloat_ge_one [OF assms(1) False, of b] dropWhile_zeros_hd [of a] by simp
  next
    case True
    with that have nz: "\<not> all_zeros b" by simp
    then have "removeLeadingZeros b \<noteq> [] \<and> hd (removeLeadingZeros b) \<noteq> CHR ''0''"
      using dropWhile_zeros_hd [of b] by (simp add: removeLeadingZeros_eq)
    then show ?thesis
      using normalizeFloat_below_one [OF True, of b]
      by (cases "removeLeadingZeros b") (simp_all add: addDecimalPointToNumber_Cons)
  qed
qed

section \<open>What toPrecision prints, normalized\<close>

lemma significand_digitsD:
  assumes "significand_digits D"
  shows "D \<noteq> []" "list_all is_digit D" "hd D \<noteq> CHR ''0''" "\<not> all_zeros D"
    "CHR ''e'' \<notin> set D" "CHR ''E'' \<notin> set D" "CHR ''.'' \<notin> set D"
  using assms digits_no_letters [of D] nonzero_hd_not_all_zeros [of D]
  by (auto simp: significand_digits_def)

lemma list_all_take_drop:
  "list_all P D \<Longrightarrow> list_all P (take k D) \<and> list_all P (drop k D)"
  by (auto simp: list_all_iff dest: in_set_takeD in_set_dropD)

lemma printed_integer:
  assumes "significand_digits D"
  shows "well_formed D \<and> hd (coefficient (normalizedNumber D)) \<noteq> CHR ''0''"
  using significand_digitsD [OF assms] coefficient_normalizeInteger [of D]
  by (simp add: well_formed_def normalizedNumber_eq mantissa_of_plain)

lemma printed_fixed:
  assumes "significand_digits D" "1 \<le> k"
  shows "well_formed (take k D @ ''.'' @ drop k D)
       \<and> hd (coefficient (normalizedNumber (take k D @ ''.'' @ drop k D))) \<noteq> CHR ''0''"
proof -
  note D = significand_digitsD [OF assms(1)]
  have a: "list_all is_digit (take k D)" "list_all is_digit (drop k D)"
    using D list_all_take_drop by blast+
  have "take k D \<noteq> []" "hd (take k D) = hd D" using D assms by (cases D; cases k; simp)+
  then have nz: "\<not> all_zeros (take k D)" using D nonzero_hd_not_all_zeros by metis
  have m: "mantissa_of (take k D @ ''.'' @ drop k D) = take k D @ ''.'' @ drop k D"
    using digits_no_letters [OF a(1)] digits_no_letters [OF a(2)] by (intro mantissa_of_plain) auto
  show ?thesis
    using coefficient_normalizeFloat [OF a] nz
    by (simp add: well_formed_def normalizedNumber_eq m [simplified])
qed

lemma printed_small:
  assumes "significand_digits D"
  shows "well_formed (''0.'' @ replicate j CHR ''0'' @ D)
       \<and> hd (coefficient (normalizedNumber (''0.'' @ replicate j CHR ''0'' @ D))) \<noteq> CHR ''0''"
proof -
  note D = significand_digitsD [OF assms(1)]
  have z: "list_all is_digit (replicate j CHR ''0'')" by (simp add: list_all_iff is_digit_simps)
  then have b: "list_all is_digit (replicate j CHR ''0'' @ D)" using D by simp
  have m: "mantissa_of (''0.'' @ replicate j CHR ''0'' @ D) = ''0.'' @ replicate j CHR ''0'' @ D"
    using digits_no_letters [OF b] by (intro mantissa_of_plain) auto
  have "list_all is_digit ''0''" by (simp add: is_digit_simps)
  from coefficient_normalizeFloat [OF this b] D show ?thesis
    by (simp add: well_formed_def normalizedNumber_eq m [simplified])
qed

lemma printed_exponential:
  assumes "significand_digits D" "list_all is_digit X" "g = CHR ''+'' \<or> g = CHR ''-''"
  shows "well_formed (D @ ''e'' @ [g] @ X)
       \<and> hd (coefficient (normalizedNumber (D @ ''e'' @ [g] @ X))) \<noteq> CHR ''0''"
    and "well_formed (take 1 D @ ''.'' @ drop 1 D @ ''e'' @ [g] @ X)
       \<and> hd (coefficient (normalizedNumber (take 1 D @ ''.'' @ drop 1 D @ ''e'' @ [g] @ X))) \<noteq> CHR ''0''"
proof -
  note D = significand_digitsD [OF assms(1)]
  have X: "CHR ''.'' \<notin> set X" using digits_no_letters [OF assms(2)] by simp
  have g: "g \<noteq> CHR ''.''" using assms(3) by auto
  have "mantissa_of (D @ CHR ''e'' # g # X) = D" using D by (simp add: mantissa_of_exponent)
  then show "well_formed (D @ ''e'' @ [g] @ X)
       \<and> hd (coefficient (normalizedNumber (D @ ''e'' @ [g] @ X))) \<noteq> CHR ''0''"
    using D X g coefficient_normalizeInteger [of D]
    by (simp add: well_formed_def normalizedNumber_eq)
  have a: "list_all is_digit (take 1 D)" "list_all is_digit (drop 1 D)"
    using D list_all_take_drop by blast+
  have "take 1 D \<noteq> []" "hd (take 1 D) = hd D" using D by (cases D; simp)+
  then have nz: "\<not> all_zeros (take 1 D)" using D nonzero_hd_not_all_zeros by metis
  have "CHR ''e'' \<notin> set (take 1 D @ CHR ''.'' # drop 1 D)" "CHR ''E'' \<notin> set (take 1 D @ CHR ''.'' # drop 1 D)"
    using digits_no_letters [OF a(1)] digits_no_letters [OF a(2)] by auto
  then have "mantissa_of ((take 1 D @ CHR ''.'' # drop 1 D) @ CHR ''e'' # g # X)
      = take 1 D @ CHR ''.'' # drop 1 D"
    by (rule mantissa_of_exponent)
  then show "well_formed (take 1 D @ ''.'' @ drop 1 D @ ''e'' @ [g] @ X)
       \<and> hd (coefficient (normalizedNumber (take 1 D @ ''.'' @ drop 1 D @ ''e'' @ [g] @ X))) \<noteq> CHR ''0''"
    using coefficient_normalizeFloat [OF a] nz
    by (simp add: well_formed_def normalizedNumber_eq)
qed

lemma finite_toPrecision_positive:
  assumes "0 < m" "1 \<le> p"
  shows "well_formed (finite_toPrecision m e2 p)
       \<and> hd (coefficient (normalizedNumber (finite_toPrecision m e2 p))) \<noteq> CHR ''0''"
proof -
  obtain e n where pd: "precision_digits (numerator m e2) (denominator e2) p = (e, n)"
    by force
  define D where "D = to_radix 10 n"
  define X where "X = to_radix 10 (nat \<bar>e\<bar>)"
  define g where "g = (if 0 \<le> e then CHR ''+'' else CHR ''-'')"
  have "0 < n"
    using precision_digits_pos [of "numerator m e2" "denominator e2" p] assms
    by (simp add: pd numerator_pos denominator_pos)
  then have D: "significand_digits D" unfolding D_def by (rule significand_digits_to_radix)
  have X: "list_all is_digit X" unfolding X_def by (rule list_all_is_digit_to_radix)
  have g: "g = CHR ''+'' \<or> g = CHR ''-''" by (simp add: g_def)
  have exp1: "finite_toPrecision m e2 p = D @ ''e'' @ [g] @ X"
    if "e < - 6 \<or> int p \<le> e" "p = 1"
    using assms(1) that pd by (simp add: finite_toPrecision_def D_def X_def g_def)
  have exp: "finite_toPrecision m e2 p = take 1 D @ ''.'' @ drop 1 D @ ''e'' @ [g] @ X"
    if "e < - 6 \<or> int p \<le> e" "p \<noteq> 1"
    using assms(1) that by (simp add: finite_toPrecision_def pd D_def X_def g_def)
  have int: "finite_toPrecision m e2 p = D"
    if "\<not> (e < - 6 \<or> int p \<le> e)" "e = int p - 1"
    using assms(1) that by (simp add: finite_toPrecision_def pd D_def)
  have fixed: "finite_toPrecision m e2 p = take (nat (e + 1)) D @ ''.'' @ drop (nat (e + 1)) D"
    if "\<not> (e < - 6 \<or> int p \<le> e)" "e \<noteq> int p - 1" "0 \<le> e"
    using assms(1) that by (simp add: finite_toPrecision_def pd D_def)
  have small: "finite_toPrecision m e2 p = ''0.'' @ replicate (nat (- (e + 1))) CHR ''0'' @ D"
    if "\<not> (e < - 6 \<or> int p \<le> e)" "e \<noteq> int p - 1" "\<not> 0 \<le> e"
    using assms(1) that by (simp add: finite_toPrecision_def pd D_def)
  show ?thesis
  proof (cases "e < - 6 \<or> int p \<le> e")
    case outer: True
    show ?thesis
    proof (cases "p = 1")
      case True
      show ?thesis
        unfolding exp1 [OF outer True] using D X g by (rule printed_exponential(1))
    next
      case False
      show ?thesis
        unfolding exp [OF outer False] using D X g by (rule printed_exponential(2))
    qed
  next
    case outer: False
    show ?thesis
    proof (cases "e = int p - 1")
      case True
      show ?thesis unfolding int [OF outer True] using D by (rule printed_integer)
    next
      case mid: False
      show ?thesis
      proof (cases "0 \<le> e")
        case True
        then have "1 \<le> nat (e + 1)" by simp
        with D show ?thesis unfolding fixed [OF outer mid True] by (rule printed_fixed)
      next
        case False
        show ?thesis unfolding small [OF outer mid False] using D by (rule printed_small)
      qed
    qed
  qed
qed

lemma finite_toPrecision_zero:
  assumes "1 \<le> p"
  shows "well_formed (finite_toPrecision 0 e2 p)"
proof (cases "p = 1")
  case True
  have "canonical_coefficient (coefficient (normalizeInteger ''0''))"
    by (intro coefficient_normalizeInteger) (simp_all add: is_digit_simps)
  then show ?thesis
    using True by (simp add: finite_toPrecision_def well_formed_def normalizedNumber_eq mantissa_of_plain)
next
  case False
  with assms obtain q where p: "p = Suc (Suc q)" by (cases p; cases "p - 1") auto
  have z: "list_all is_digit (replicate (Suc q) CHR ''0'')"
    by (simp add: list_all_iff is_digit_simps)
  have "list_all is_digit ''0''" by (simp add: is_digit_simps)
  from coefficient_normalizeFloat(1) [OF this z]
  have "canonical_coefficient (coefficient (normalizeFloat (''0.'' @ replicate (Suc q) CHR ''0'')))"
    by simp
  moreover have "mantissa_of (''0.'' @ replicate (Suc q) CHR ''0'') = ''0.'' @ replicate (Suc q) CHR ''0''"
    by (intro mantissa_of_plain) auto
  ultimately show ?thesis
    by (simp add: finite_toPrecision_def well_formed_def normalizedNumber_eq p)
qed

section \<open>The mantissa of a decimal literal\<close>

lemma split_at_point:
  "CHR ''.'' \<in> set m \<Longrightarrow>
     m = takeWhile (\<lambda>c. c \<noteq> CHR ''.'') m @ CHR ''.'' # tl (dropWhile (\<lambda>c. c \<noteq> CHR ''.'') m)"
  by (induction m) auto

lemma decimal_mantissa_coefficient:
  assumes "decimal_mantissa m" "\<not> zero_point m"
  defines "N \<equiv> (if CHR ''.'' \<in> set m then normalizeFloat m else normalizeInteger m)"
  shows "canonical_coefficient (coefficient N)"
    and "hd (coefficient N) = CHR ''0'' \<Longrightarrow> zero_mantissa m"
proof -
  define i where "i = takeWhile (\<lambda>c. c \<noteq> CHR ''.'') m"
  define f where "f = dropWhile (\<lambda>c. c \<noteq> CHR ''.'') m"
  have i: "list_all is_digit i" using assms(1) by (simp add: decimal_mantissa_def i_def Let_def)
  show "canonical_coefficient (coefficient N)"
  proof (cases "CHR ''.'' \<in> set m")
    case False
    then have "i = m" "f = []"
      by (auto simp: i_def f_def takeWhile_eq_all_conv dropWhile_eq_Nil_conv)
    with assms(1) i False show ?thesis
      using coefficient_normalizeInteger(1) [of m]
      by (simp add: decimal_mantissa_def N_def Let_def i_def [symmetric] f_def [symmetric])
  next
    case True
    then have m: "m = i @ CHR ''.'' # tl f" unfolding i_def f_def by (rule split_at_point)
    have fne: "f \<noteq> []" using True by (simp add: f_def)
    have f: "list_all is_digit (tl f)" "i \<noteq> [] \<or> tl f \<noteq> []"
      using assms(1) fne by (simp_all add: decimal_mantissa_def Let_def i_def [symmetric] f_def [symmetric])
    have "f = CHR ''.'' # tl f" using fne hd_dropWhile [of "\<lambda>c. c \<noteq> CHR ''.''" m]
      by (cases f) (auto simp: f_def)
    with assms(2) have "\<not> all_zeros i \<or> tl f \<noteq> []"
      by (auto simp: zero_point_def i_def [symmetric] f_def [symmetric])
    from coefficient_normalizeFloat(1) [OF i f(1) this] True show ?thesis
      by (simp add: N_def m [symmetric])
  qed
  show "zero_mantissa m" if "hd (coefficient N) = CHR ''0''"
  proof (cases "CHR ''.'' \<in> set m")
    case False
    then have "i = m" "f = []"
      by (auto simp: i_def f_def takeWhile_eq_all_conv dropWhile_eq_Nil_conv)
    with assms(1) i False have "list_all is_digit m" "m \<noteq> []"
      by (simp_all add: decimal_mantissa_def Let_def i_def [symmetric] f_def [symmetric])
    with that False have "all_zeros m"
      using coefficient_normalizeInteger(2) [of m] by (auto simp: N_def)
    then show ?thesis by (simp add: zero_mantissa_def all_zeros_def list_all_iff)
  next
    case True
    then have m: "m = i @ CHR ''.'' # tl f" unfolding i_def f_def by (rule split_at_point)
    have fne: "f \<noteq> []" using True by (simp add: f_def)
    have f: "list_all is_digit (tl f)" "i \<noteq> [] \<or> tl f \<noteq> []"
      using assms(1) fne by (simp_all add: decimal_mantissa_def Let_def i_def [symmetric] f_def [symmetric])
    have "f = CHR ''.'' # tl f" using fne hd_dropWhile [of "\<lambda>c. c \<noteq> CHR ''.''" m]
      by (cases f) (auto simp: f_def)
    with assms(2) have "\<not> all_zeros i \<or> tl f \<noteq> []"
      by (auto simp: zero_point_def i_def [symmetric] f_def [symmetric])
    from coefficient_normalizeFloat(2) [OF i f(1) this] that True
    have "all_zeros i \<and> all_zeros (tl f)" by (auto simp: N_def m [symmetric])
    then have "zero_mantissa (i @ CHR ''.'' # tl f)"
      by (auto simp: zero_mantissa_def all_zeros_def list_all_iff)
    then show ?thesis by (simp add: m [symmetric])
  qed
qed

lemma exponent_part_no_point: "exponent_part x \<Longrightarrow> CHR ''.'' \<notin> set x"
  using is_digit_simps
  by (auto simp: exponent_part_def Let_def list_all_iff split: list.splits if_splits)

lemma decimal_literal_normalizedNumber:
  assumes "decimal_literal t"
  shows "normalizedNumber t =
     (if CHR ''.'' \<in> set (mantissa_of t) then normalizeFloat (mantissa_of t)
      else normalizeInteger (mantissa_of t))"
proof -
  have "t = mantissa_of t @ exponent_of t" by (simp add: mantissa_of_def exponent_of_def)
  then have "set t = set (mantissa_of t) \<union> set (exponent_of t)" by (metis set_append)
  moreover have "CHR ''.'' \<notin> set (exponent_of t)"
    using assms by (simp add: decimal_literal_def exponent_part_no_point)
  ultimately show ?thesis by (simp add: normalizedNumber_eq)
qed

section \<open>The requested precision\<close>

lemma coefficient_source:
  "\<exists>sig. coefficient (normalizedNumber s) = addDecimalPointToNumber sig \<and> CHR ''e'' \<notin> set sig"
proof -
  define m where "m = mantissa_of s"
  have m: "CHR ''e'' \<notin> set m"
    unfolding m_def mantissa_of_def by (auto simp: not_exponent_marker_def dest: set_takeWhileD)
  have lead: "CHR ''e'' \<notin> set (removeLeadingZeros u)" if "CHR ''e'' \<notin> set u" for u
    using that set_removeLeadingZeros [of u] by auto
  have 1: "CHR ''e'' \<notin> set (removeTrailingZeros (removeLeadingZeros m))"
    using lead [OF m] set_removeTrailingZeros [of "removeLeadingZeros m"] by auto
  have 2: "CHR ''e'' \<notin> set (removeLeadingZeros (drop 1 (removeLeadingZeros m)))"
    using lead [OF m] by (intro lead) (auto dest: in_set_dropD)
  have 3: "CHR ''e'' \<notin> set (String_replace (removeLeadingZeros m) CHR ''.'' [])"
    using lead [OF m] set_String_replace_Nil [of "removeLeadingZeros m" "CHR ''.''"] by auto
  show ?thesis
    using 1 2 3
    by (auto simp: normalizedNumber_eq m_def [symmetric] normalizeInteger_def normalizeFloat_def Let_def)
qed

lemma requestedPrecision_addDecimalPoint:
  assumes "CHR ''e'' \<notin> set sig"
  shows "requestedPrecision (addDecimalPointToNumber sig @ ''e'' @ x) =
           (if sig = [] then 3 else length sig)"
proof (cases sig)
  case Nil
  then show ?thesis
    by (simp add: requestedPrecision_def hd_String_split addDecimalPointToNumber_Nil)
next
  case (Cons c r)
  with assms have "CHR ''e'' \<notin> set (c # CHR ''.'' # r)" by auto
  then have "takeWhile (\<lambda>x. x \<noteq> CHR ''e'') ((c # CHR ''.'' # r) @ CHR ''e'' # x) = c # CHR ''.'' # r"
    by (rule takeWhile_until)
  then have piece: "hd (String_split ((c # CHR ''.'' # r) @ ''e'' @ x) CHR ''e'') = c # CHR ''.'' # r"
    by (simp only: hd_String_split append_Cons append_Nil)
  have "length (String_replace (c # CHR ''.'' # r) CHR ''.'' []) = Suc (length r)"
    by simp
  then show ?thesis
    unfolding requestedPrecision_def Cons addDecimalPointToNumber_Cons piece by simp
qed

lemma requestedPrecision_convert:
  "1 \<le> requestedPrecision (convertNumberToScientificNotation s)"
  "length (filter is_digit (coefficient (normalizedNumber s)))
     \<le> requestedPrecision (convertNumberToScientificNotation s)"
proof -
  obtain sig where sig: "coefficient (normalizedNumber s) = addDecimalPointToNumber sig"
    "CHR ''e'' \<notin> set sig"
    using coefficient_source by blast
  have p: "requestedPrecision (convertNumberToScientificNotation s) = (if sig = [] then 3 else length sig)"
    using requestedPrecision_addDecimalPoint [OF sig(2)]
    by (simp add: convertNumberToScientificNotation_def sig(1))
  show "1 \<le> requestedPrecision (convertNumberToScientificNotation s)"
    by (cases sig) (simp_all add: p)
  have "length (filter is_digit (addDecimalPointToNumber sig)) \<le> (if sig = [] then 3 else length sig)"
  proof (cases sig)
    case Nil
    then show ?thesis by (simp add: addDecimalPointToNumber_Nil is_digit_def)
  next
    case (Cons c r)
    have "length (filter is_digit r) \<le> length r" by simp
    then show ?thesis by (simp add: Cons addDecimalPointToNumber_Cons is_digit_simps le_SucI)
  qed
  then show "length (filter is_digit (coefficient (normalizedNumber s)))
     \<le> requestedPrecision (convertNumberToScientificNotation s)"
    by (simp add: p sig(1))
qed

lemma Number_toPrecision_returns:
  "1 \<le> p \<Longrightarrow> p \<le> 100 \<Longrightarrow> \<exists>s. Number_toPrecision x p = Inr s"
  by (cases x) (simp_all add: Number_toPrecision_def)

lemma baseTenLosesPrecision_number:
  "\<exists>b. baseTenLosesPrecision \<lparr>raw = r, val = JNumber x\<rparr> = Inr b"
proof -
  define p where "p = requestedPrecision (convertNumberToScientificNotation (getRaw \<lparr>raw = r, val = JNumber x\<rparr>))"
  have "1 \<le> p" unfolding p_def by (rule requestedPrecision_convert(1))
  then have "\<exists>s. Number_toPrecision x p = Inr s" if "p \<le> 100"
    using that by (rule Number_toPrecision_returns)
  then show ?thesis
    by (cases "p \<le> 100")
      (auto simp: baseTenLosesPrecision_def Let_def p_def [symmetric] toPrecision_def)
qed

lemma rule_base:
  "(if String_startsWith s ''0B'' then 2 else if String_startsWith s ''0X'' then 16 else 8)
     \<in> {2, 8, 16 :: nat}"
  by simp

lemma notBaseTenLosesPrecision_number:
  "\<exists>b. notBaseTenLosesPrecision \<lparr>raw = r, val = JNumber x\<rparr> = Inr b"
  by (cases x) (simp_all add: notBaseTenLosesPrecision_def toString_def Number_toString_def Let_def)

lemma losesPrecision_no_RangeError: "losesPrecision node \<noteq> Inl RangeError"
proof (cases "val node")
  case (JNumber x)
  obtain r v where n: "node = \<lparr>raw = r, val = v\<rparr>" by (cases node) auto
  with JNumber have "node = \<lparr>raw = r, val = JNumber x\<rparr>" by simp
  then show ?thesis
    using baseTenLosesPrecision_number [of r x] notBaseTenLosesPrecision_number [of r x]
    by (auto simp: losesPrecision_def)
qed (auto simp: losesPrecision_def baseTenLosesPrecision_def notBaseTenLosesPrecision_def
    toPrecision_def toString_def Let_def split: if_splits)

section \<open>Upper case\<close>

lemma upper_char_cases:
  "upper_char c = c \<or>
   (c, upper_char c) \<in> set (zip ''abcdefghijklmnopqrstuvwxyz'' ''ABCDEFGHIJKLMNOPQRSTUVWXYZ'')"
proof (cases "map_of (zip ''abcdefghijklmnopqrstuvwxyz'' ''ABCDEFGHIJKLMNOPQRSTUVWXYZ'') c")
  case None
  then have "upper_char c = c" unfolding upper_char_def by (simp only: option.case)
  then show ?thesis by (rule disjI1)
next
  case (Some u)
  then have "(c, u) \<in> set (zip ''abcdefghijklmnopqrstuvwxyz'' ''ABCDEFGHIJKLMNOPQRSTUVWXYZ'')"
    by (rule map_of_SomeD)
  moreover have "upper_char c = u" unfolding upper_char_def using Some by (simp only: option.case)
  ultimately show ?thesis by (simp only: simp_thms)
qed

lemma upper_char_fixed:
  "upper_char CHR ''x'' = CHR ''X''" "upper_char CHR ''X'' = CHR ''X''"
  "upper_char CHR ''b'' = CHR ''B''" "upper_char CHR ''B'' = CHR ''B''"
  "upper_char CHR ''o'' = CHR ''O''" "upper_char CHR ''O'' = CHR ''O''"
  "upper_char CHR ''0'' = CHR ''0''" "upper_char CHR ''_'' = CHR ''_''"
  by (simp_all add: upper_char_def)

lemma upper_char_X: "upper_char c = CHR ''X'' \<longleftrightarrow> c = CHR ''x'' \<or> c = CHR ''X''"
proof
  assume "upper_char c = CHR ''X''"
  with upper_char_cases [of c] show "c = CHR ''x'' \<or> c = CHR ''X''" by auto
next
  assume "c = CHR ''x'' \<or> c = CHR ''X''"
  then show "upper_char c = CHR ''X''" using upper_char_fixed by blast
qed

lemma upper_char_B: "upper_char c = CHR ''B'' \<longleftrightarrow> c = CHR ''b'' \<or> c = CHR ''B''"
proof
  assume "upper_char c = CHR ''B''"
  with upper_char_cases [of c] show "c = CHR ''b'' \<or> c = CHR ''B''" by auto
next
  assume "c = CHR ''b'' \<or> c = CHR ''B''"
  then show "upper_char c = CHR ''B''" using upper_char_fixed by blast
qed

lemma upper_char_O: "upper_char c = CHR ''O'' \<longleftrightarrow> c = CHR ''o'' \<or> c = CHR ''O''"
proof
  assume "upper_char c = CHR ''O''"
  with upper_char_cases [of c] show "c = CHR ''o'' \<or> c = CHR ''O''" by auto
next
  assume "c = CHR ''o'' \<or> c = CHR ''O''"
  then show "upper_char c = CHR ''O''" using upper_char_fixed by blast
qed

lemma upper_char_zero: "upper_char c = CHR ''0'' \<longleftrightarrow> c = CHR ''0''"
proof
  assume "upper_char c = CHR ''0''"
  with upper_char_cases [of c] show "c = CHR ''0''" by auto
next
  assume "c = CHR ''0''"
  then show "upper_char c = CHR ''0''" using upper_char_fixed by simp
qed

lemma upper_char_underscore: "upper_char c = CHR ''_'' \<longleftrightarrow> c = CHR ''_''"
proof
  assume "upper_char c = CHR ''_''"
  with upper_char_cases [of c] show "c = CHR ''_''" by auto
next
  assume "c = CHR ''_''"
  then show "upper_char c = CHR ''_''" using upper_char_fixed by simp
qed

lemmas upper_char_letters =
  upper_char_X upper_char_B upper_char_O upper_char_zero upper_char_underscore

lemma upper_char_digit: "is_digit c \<Longrightarrow> upper_char c = c"
  using upper_char_cases [of c] by (auto simp: is_digit_def)

lemma is_octal_digit_is_digit: "is_octal_digit c \<Longrightarrow> is_digit c"
  by (auto simp: is_octal_digit_def is_digit_def)

section \<open>The characters of a rendered number\<close>

lemma set_fraction_digits:
  "0 < radix \<Longrightarrow> r < d \<Longrightarrow> set (fraction_digits radix r d fuel) \<subseteq> digit_char ` {..<radix}"
proof (induction fuel arbitrary: r)
  case 0
  then show ?case by simp
next
  case (Suc fuel)
  have "r * radix < d * radix" using Suc.prems by simp
  then have "r * radix div d < radix"
    using Suc.prems by (simp add: less_mult_imp_div_less)
  moreover have "r * radix mod d < d" using Suc.prems by simp
  ultimately show ?case using Suc.IH [of "r * radix mod d"] by auto
qed

lemma set_Number_toString:
  assumes "Number_toString x radix = Inr r"
  shows "set r \<subseteq> digit_char ` {..<radix} \<union> set ''-.InfinityNaN''"
proof (cases x)
  case (Finite m e)
  have "2 \<le> radix" using assms by (auto simp: Number_toString_def split: if_splits)
  then have int: "set (to_radix radix (numerator m e div denominator e)) \<subseteq> digit_char ` {..<radix}"
    by (rule set_to_radix)
  have "numerator m e mod denominator e < denominator e"
    using denominator_pos [of e] by simp
  with \<open>2 \<le> radix\<close>
  have "set (fraction_digits radix (numerator m e mod denominator e) (denominator e) (nat (- e)))
      \<subseteq> digit_char ` {..<radix}"
    by (intro set_fraction_digits) simp_all
  with int assms Finite show ?thesis
    by (auto simp: Number_toString_def finite_toString_def Let_def split: if_splits)
qed (use assms in \<open>auto simp: Number_toString_def split: if_splits\<close>)

lemma digit_char_in_table: "digit_char d \<in> set ''0123456789abcdefghijklmnopqrstuvwxyz''"
  unfolding digit_char_def by (rule nth_mem) simp

lemma digit_char_not_upper:
  "digit_char d \<noteq> CHR ''X''" "digit_char d \<noteq> CHR ''B''" "digit_char d \<noteq> CHR ''O''"
  using digit_char_in_table [of d] by auto

lemma digit_char_letters:
  "digit_char 33 = CHR ''x''" "digit_char 11 = CHR ''b''" "digit_char 24 = CHR ''o''"
  by (simp_all add: digit_char_def)

lemma digit_char_not_prefix_letter:
  "d < 16 \<Longrightarrow> upper_char (digit_char d) \<noteq> CHR ''X''"
  "d < 2 \<Longrightarrow> upper_char (digit_char d) \<noteq> CHR ''B''"
  "d < 8 \<Longrightarrow> upper_char (digit_char d) \<noteq> CHR ''O''"
  using digit_char_eq_iff [of d 33] digit_char_eq_iff [of d 11] digit_char_eq_iff [of d 24]
  by (auto simp: upper_char_letters digit_char_not_upper digit_char_letters)

lemma names_not_prefix_letter:
  assumes "c \<in> set ''-.InfinityNaN''"
  shows "upper_char c \<noteq> CHR ''X''" "upper_char c \<noteq> CHR ''B''" "upper_char c \<noteq> CHR ''O''"
  using assms by (auto simp: upper_char_letters)

lemma rendered_without_prefix_letter:
  assumes "Number_toString x radix = Inr r"
  shows "radix = 16 \<Longrightarrow> CHR ''X'' \<notin> set (String_toUpperCase r)"
    and "radix = 2 \<Longrightarrow> CHR ''B'' \<notin> set (String_toUpperCase r)"
    and "radix = 8 \<Longrightarrow> CHR ''O'' \<notin> set (String_toUpperCase r)"
proof -
  have chars: "c \<in> digit_char ` {..<radix} \<or> c \<in> set ''-.InfinityNaN''" if "c \<in> set r" for c
    using set_Number_toString [OF assms] that by blast
  show "CHR ''X'' \<notin> set (String_toUpperCase r)" if "radix = 16"
  proof
    assume "CHR ''X'' \<in> set (String_toUpperCase r)"
    then obtain c where c: "c \<in> set r" "upper_char c = CHR ''X''"
      by (auto simp: String_toUpperCase_def)
    from chars [OF c(1)] c(2) that show False
      using digit_char_not_prefix_letter(1) names_not_prefix_letter(1) by blast
  qed
  show "CHR ''B'' \<notin> set (String_toUpperCase r)" if "radix = 2"
  proof
    assume "CHR ''B'' \<in> set (String_toUpperCase r)"
    then obtain c where c: "c \<in> set r" "upper_char c = CHR ''B''"
      by (auto simp: String_toUpperCase_def)
    from chars [OF c(1)] c(2) that show False
      using digit_char_not_prefix_letter(2) names_not_prefix_letter(2) by blast
  qed
  show "CHR ''O'' \<notin> set (String_toUpperCase r)" if "radix = 8"
  proof
    assume "CHR ''O'' \<in> set (String_toUpperCase r)"
    then obtain c where c: "c \<in> set r" "upper_char c = CHR ''O''"
      by (auto simp: String_toUpperCase_def)
    from chars [OF c(1)] c(2) that show False
      using digit_char_not_prefix_letter(3) names_not_prefix_letter(3) by blast
  qed
qed

section \<open>Suffixes\<close>

lemma String_endsWith_iff: "String_endsWith s p \<longleftrightarrow> (\<exists>u. s = u @ p)"
proof
  assume "String_endsWith s p"
  then have "s = take (length s - length p) s @ p"
    by (metis String_endsWith_def append_take_drop_id)
  then show "\<exists>u. s = u @ p" ..
next
  assume "\<exists>u. s = u @ p"
  then show "String_endsWith s p" by (auto simp: String_endsWith_def)
qed

lemma String_endsWith_after_prefix:
  assumes "L \<notin> set R"
  shows "String_endsWith (P @ L # D) R \<longleftrightarrow> String_endsWith D R"
proof
  assume "String_endsWith D R"
  then obtain u where "D = u @ R" by (auto simp: String_endsWith_iff)
  then have "P @ L # D = (P @ L # u) @ R" by simp
  then show "String_endsWith (P @ L # D) R" unfolding String_endsWith_iff by blast
next
  assume "String_endsWith (P @ L # D) R"
  then obtain u where "(P @ [L]) @ D = u @ R" by (auto simp: String_endsWith_iff)
  then consider w where "P @ [L] = u @ w" "w @ D = R" | w where "(P @ [L]) @ w = u" "D = w @ R"
    unfolding append_eq_append_conv2 by blast
  then show "String_endsWith D R"
  proof cases
    case 1
    show ?thesis
    proof (cases "w = []")
      case True
      with 1 show ?thesis by (auto simp: String_endsWith_iff)
    next
      case False
      then have "last w = L" using 1(1) by (metis last_appendR last_snoc)
      then have "L \<in> set R" using False 1(2) by (metis last_in_set set_append UnCI)
      with assms show ?thesis by simp
    qed
  next
    case 2
    then show ?thesis unfolding String_endsWith_iff by blast
  qed
qed

section \<open>Literals with a radix\<close>

lemma radix_prefix_SomeD:
  assumes "radix_prefix text = Some b"
  obtains x ds where "text = CHR ''0'' # x # ds"
    and "b = 16 \<and> upper_char x = CHR ''X'' \<or> b = 2 \<and> upper_char x = CHR ''B''
         \<or> b = 8 \<and> upper_char x = CHR ''O''"
proof -
  from assms obtain a x ds where t: "text = a # x # ds"
    by (cases "text"; cases "tl text")
      (auto simp: radix_prefix_def String_toUpperCase_def Let_def split: if_splits)
  with assms have "upper_char a = CHR ''0''"
    by (auto simp: radix_prefix_def String_toUpperCase_def Let_def split: if_splits)
  then have "a = CHR ''0''" by (simp add: upper_char_zero)
  moreover have "b = 16 \<and> upper_char x = CHR ''X'' \<or> b = 2 \<and> upper_char x = CHR ''B''
         \<or> b = 8 \<and> upper_char x = CHR ''O''"
    using assms t by (auto simp: radix_prefix_def String_toUpperCase_def Let_def split: if_splits)
  ultimately show ?thesis using t that by blast
qed

lemma prefixed_not_base_ten:
  assumes "raw node = CHR ''0'' # x # ds"
    and "upper_char x = CHR ''X'' \<or> upper_char x = CHR ''B'' \<or> upper_char x = CHR ''O''"
  shows "\<not> isBaseTen node"
proof -
  have "x \<in> set ''xXbBoO''" using assms(2) by (auto simp: upper_char_letters)
  then show ?thesis
    using assms(1) by (auto simp: isBaseTen_def String_startsWith_def)
qed

lemma prefixed_rawString:
  assumes "raw node = CHR ''0'' # x # ds" "upper_char x = L" "L \<noteq> CHR ''_''"
  shows "String_toUpperCase (getRaw node)
           = ''0'' @ L # String_toUpperCase (String_removeAll ds CHR ''_'')"
proof -
  have "x \<noteq> CHR ''_''" using assms upper_char_fixed by auto
  then show ?thesis
    using assms by (simp add: getRaw_def String_removeAll_def String_toUpperCase_def upper_char_fixed)
qed

lemma notBaseTen_prefixed:
  assumes "raw node = CHR ''0'' # x # ds" "val node = JNumber v"
    and "b = 16 \<and> upper_char x = CHR ''X'' \<or> b = 2 \<and> upper_char x = CHR ''B''
         \<or> b = 8 \<and> upper_char x = CHR ''O''"
  shows "\<exists>rendered. Number_toString v b = Inr rendered \<and>
           notBaseTenLosesPrecision node =
             Inr (\<not> String_endsWith (String_toUpperCase (String_removeAll ds CHR ''_''))
                      (String_toUpperCase rendered))"
proof -
  define D where "D = String_toUpperCase (String_removeAll ds CHR ''_'')"
  from assms(3) consider "b = 16" "upper_char x = CHR ''X''" | "b = 2" "upper_char x = CHR ''B''"
    | "b = 8" "upper_char x = CHR ''O''" by blast
  then show ?thesis
  proof cases
    case 1
    obtain r where r: "Number_toString v 16 = Inr r"
      by (cases v) (simp_all add: Number_toString_def)
    have raw: "String_toUpperCase (getRaw node) = ''0'' @ CHR ''X'' # D"
      unfolding D_def using assms(1) 1(2) by (rule prefixed_rawString) simp
    have "String_endsWith (''0'' @ CHR ''X'' # D) (String_toUpperCase r)
        \<longleftrightarrow> String_endsWith D (String_toUpperCase r)"
      using rendered_without_prefix_letter(1) [OF r] by (intro String_endsWith_after_prefix) simp
    then show ?thesis
      using r 1(1) assms(2)
      by (simp add: notBaseTenLosesPrecision_def raw toString_def String_startsWith_def D_def)
  next
    case 2
    obtain r where r: "Number_toString v 2 = Inr r"
      by (cases v) (simp_all add: Number_toString_def)
    have raw: "String_toUpperCase (getRaw node) = ''0'' @ CHR ''B'' # D"
      unfolding D_def using assms(1) 2(2) by (rule prefixed_rawString) simp
    have "String_endsWith (''0'' @ CHR ''B'' # D) (String_toUpperCase r)
        \<longleftrightarrow> String_endsWith D (String_toUpperCase r)"
      using rendered_without_prefix_letter(2) [OF r] by (intro String_endsWith_after_prefix) simp
    then show ?thesis
      using r 2(1) assms(2)
      by (simp add: notBaseTenLosesPrecision_def raw toString_def String_startsWith_def D_def)
  next
    case 3
    obtain r where r: "Number_toString v 8 = Inr r"
      by (cases v) (simp_all add: Number_toString_def)
    have raw: "String_toUpperCase (getRaw node) = ''0'' @ CHR ''O'' # D"
      unfolding D_def using assms(1) 3(2) by (rule prefixed_rawString) simp
    have "String_endsWith (''0'' @ CHR ''O'' # D) (String_toUpperCase r)
        \<longleftrightarrow> String_endsWith D (String_toUpperCase r)"
      using rendered_without_prefix_letter(3) [OF r] by (intro String_endsWith_after_prefix) simp
    then show ?thesis
      using r 3(1) assms(2)
      by (simp add: notBaseTenLosesPrecision_def raw toString_def String_startsWith_def D_def)
  qed
qed

lemma legacy_octal_text:
  assumes "legacy_octal text"
  shows "String_toUpperCase (String_removeAll text CHR ''_'') = text"
    and "\<not> String_startsWith text ''0B''" "\<not> String_startsWith text ''0X''"
proof -
  from assms obtain d ds where t: "text = CHR ''0'' # d # ds" "list_all is_octal_digit (d # ds)"
    by (cases "text"; cases "tl text") (auto simp: legacy_octal_def)
  then have dig: "list_all is_digit text"
    using is_octal_digit_is_digit by (auto simp: list_all_iff is_digit_simps)
  then have "CHR ''_'' \<notin> set text" using is_digit_simps by (auto simp: list_all_iff)
  then have "String_removeAll text CHR ''_'' = text"
    by (auto simp: String_removeAll_def filter_id_conv)
  moreover have "map upper_char text = text"
    using dig by (simp add: map_idI list_all_iff upper_char_digit)
  ultimately show "String_toUpperCase (String_removeAll text CHR ''_'') = text"
    by (simp add: String_toUpperCase_def)
  have "is_octal_digit d" using t by simp
  then have "d \<noteq> CHR ''B''" "d \<noteq> CHR ''X''" by (auto simp: is_octal_digit_def)
  then show "\<not> String_startsWith text ''0B''" "\<not> String_startsWith text ''0X''"
    using t by (simp_all add: String_startsWith_def)
qed

lemma notBaseTen_legacy:
  assumes "legacy_octal (raw node)" "val node = JNumber v"
  shows "\<exists>rendered. Number_toString v 8 = Inr rendered \<and>
           notBaseTenLosesPrecision node =
             Inr (\<not> String_endsWith (raw node) (String_toUpperCase rendered))"
proof -
  obtain r where r: "Number_toString v 8 = Inr r"
    by (cases v) (simp_all add: Number_toString_def)
  then show ?thesis
    using legacy_octal_text [OF assms(1)] assms(2)
    by (simp add: notBaseTenLosesPrecision_def getRaw_def toString_def)
qed

lemma spec_radix_not_base_ten: "spec_radix (raw node) = Some b \<Longrightarrow> \<not> isBaseTen node"
proof (cases "radix_prefix (raw node)")
  case None
  assume "spec_radix (raw node) = Some b"
  with None have "legacy_octal (raw node)" by (simp add: spec_radix_def split: if_splits)
  then show ?thesis by (simp add: isBaseTen_def)
next
  case (Some b')
  then obtain x ds where "raw node = CHR ''0'' # x # ds"
    "b' = 16 \<and> upper_char x = CHR ''X'' \<or> b' = 2 \<and> upper_char x = CHR ''B''
         \<or> b' = 8 \<and> upper_char x = CHR ''O''"
    by (rule radix_prefix_SomeD)
  then show ?thesis by (intro prefixed_not_base_ten) auto
qed

lemma finite_toString_integer:
  "0 \<le> m \<Longrightarrow> 0 \<le> e \<Longrightarrow> finite_toString m e b = to_radix b (nat m * 2 ^ nat e)"
  by (simp add: finite_toString_def numerator_def denominator_def)

lemma finite_toString_zero: "2 \<le> b \<Longrightarrow> finite_toString 0 e b = ''0''"
  by (simp add: finite_toString_def numerator_def to_radix_small digit_char_0)

lemma String_endsWith_zero:
  assumes "D \<noteq> []" "all_zeros D"
  shows "String_endsWith D ''0''"
proof -
  have "last D \<in> set D" using assms(1) by (rule last_in_set)
  then have "last D = CHR ''0''" using assms(2) by (simp add: all_zeros_def list_all_iff)
  moreover have "D = butlast D @ [last D]" using assms(1) by simp
  ultimately have "D = butlast D @ ''0''" by simp
  then show ?thesis unfolding String_endsWith_iff by blast
qed

lemma zero_node:
  "isBaseTen \<lparr>raw = ''0'', val = v\<rparr>" "getRaw \<lparr>raw = ''0'', val = v\<rparr> = ''0''"
  "isBaseTen \<lparr>raw = ''0.0'', val = v\<rparr>" "getRaw \<lparr>raw = ''0.0'', val = v\<rparr> = ''0.0''"
  "isBaseTen \<lparr>raw = ''0e5'', val = v\<rparr>" "getRaw \<lparr>raw = ''0e5'', val = v\<rparr> = ''0e5''"
  "isBaseTen \<lparr>raw = ''0e0'', val = v\<rparr>" "getRaw \<lparr>raw = ''0e0'', val = v\<rparr> = ''0e0''"
  by (simp_all add: isBaseTen_def legacy_octal_def is_octal_digit_def String_startsWith_def
      getRaw_def String_removeAll_def)

lemma zero_convert:
  "convertNumberToScientificNotation ''0'' = ''0.e-1''"
  "convertNumberToScientificNotation ''0.0'' = ''0.e-1''"
  "convertNumberToScientificNotation ''0e5'' = ''0.e4''"
  "convertNumberToScientificNotation ''0e0'' = ''0.e-1''"
  "requestedPrecision ''0.e-1'' = 1" "requestedPrecision ''0.e4'' = 1"
  by code_simp+

lemma zero_toPrecision: "toPrecision (JNumber (Finite 0 e)) (Suc 0) = Inr ''0''"
  by (simp add: toPrecision_def Number_toPrecision_def finite_toPrecision_def)

lemma zero_losesPrecision:
  "losesPrecision \<lparr>raw = ''0'', val = JNumber (Finite 0 e)\<rparr> = Inr False"
  "losesPrecision \<lparr>raw = ''0.0'', val = JNumber (Finite 0 e)\<rparr> = Inr False"
  "losesPrecision \<lparr>raw = ''0e0'', val = JNumber (Finite 0 e)\<rparr> = Inr False"
  "losesPrecision \<lparr>raw = ''0e5'', val = JNumber (Finite 0 e)\<rparr> = Inr True"
  by (simp_all add: losesPrecision_def baseTenLosesPrecision_def zero_node zero_convert
      zero_toPrecision)

lemma Literal_falsy: "\<not> ToBoolean (val node) \<Longrightarrow> Literal node = Inr []"
  by (simp add: Literal_def)

lemma zero_coefficients:
  "coefficient (normalizedNumber ''0'') = ''0.''"
  "coefficient (normalizedNumber ''0.0'') = ''0.''"
  "coefficient (normalizedNumber ''0e0'') = ''0.''"
  "removeTrailingZeros (removeLeadingZeros ''0'') = ''0''"
  "removeLeadingZeros (drop 1 (removeLeadingZeros ''0.0'')) = ''0''"
  by code_simp+

lemma hex_zero:
  "losesPrecision \<lparr>raw = ''0x0'', val = JNumber (Finite 0 e)\<rparr> = Inr False"
proof -
  let ?n = "\<lparr>raw = ''0x0'', val = JNumber (Finite 0 e)\<rparr>"
  have "\<not> isBaseTen ?n" by (simp add: isBaseTen_def String_startsWith_def)
  moreover have "String_toUpperCase (getRaw ?n) = ''0X0''"
    by (simp add: getRaw_def String_removeAll_def String_toUpperCase_def upper_char_fixed)
  moreover have "toString (val ?n) 16 = Inr ''0''"
    by (simp add: toString_def Number_toString_def finite_toString_zero)
  ultimately show ?thesis
    by (simp add: losesPrecision_def notBaseTenLosesPrecision_def String_startsWith_def
        String_endsWith_def String_toUpperCase_def upper_char_fixed)
qed

lemmas integer_text_eval = integer_toString_def to_radix.simps digit_char_def

section \<open>Evaluation on concrete literals\<close>

lemmas number_eval =
  is_digit_def digit_char_def to_radix.simps numerator_def denominator_def
  decimal_exponent_def scaled_round_def precision_digits_def finite_toPrecision_def
  Number_toPrecision_def finite_toString_def Number_toString_def toPrecision_def toString_def

lemma convert_2_53_plus_1:
  "convertNumberToScientificNotation ''9007199254740993'' = ''9.007199254740993e15''"
  by code_simp

lemma convert_2_53:
  "convertNumberToScientificNotation ''9007199254740992'' = ''9.007199254740992e15''"
  by code_simp

lemma requestedPrecision_2_53:
  "requestedPrecision ''9.007199254740993e15'' = 16"
  "requestedPrecision ''9.007199254740992e15'' = 16"
  by code_simp+

lemma toPrecision_2_53:
  "toPrecision (JNumber (Finite 9007199254740992 0)) 16 = Inr ''9007199254740992''"
  by (simp add: number_eval)

section \<open>The model of toPrecision against ECMA-262\<close>

text \<open>\<open>x < 10 ^ (e + 1)\<close>, written without division.\<close>

lemma decimal_exponent_upper:
  assumes "0 < a" "0 < b"
  shows "0 \<le> decimal_exponent a b \<Longrightarrow> a < b * 10 ^ (nat (decimal_exponent a b) + 1)"
    and "decimal_exponent a b < 0 \<Longrightarrow> a * 10 ^ (nat (- decimal_exponent a b) - 1) < b"
proof -
  show "a < b * 10 ^ (nat (decimal_exponent a b) + 1)" if "0 \<le> decimal_exponent a b"
  proof (cases "b \<le> a")
    case True
    have e: "nat (decimal_exponent a b) + 1 = length (to_radix 10 (a div b))"
      using True to_radix_not_Nil [of 10 "a div b"]
      by (cases "to_radix 10 (a div b)") (simp_all add: decimal_exponent_def)
    have "a div b < 10 ^ length (to_radix 10 (a div b))" by (rule to_radix_upper)
    then have "a < b * 10 ^ length (to_radix 10 (a div b))"
      using assms by (simp add: div_less_iff_less_mult mult.commute)
    then show ?thesis by (simp only: e)
  next
    case False
    then have "decimal_exponent a b < 0"
      using to_radix_not_Nil [of 10 "(b - 1) div a"] by (simp add: decimal_exponent_def)
    with that show ?thesis by simp
  qed
  show "a * 10 ^ (nat (- decimal_exponent a b) - 1) < b" if "decimal_exponent a b < 0"
  proof (cases "b \<le> a")
    case True
    then have "0 \<le> decimal_exponent a b"
      by (cases "to_radix 10 (a div b)") (simp_all add: decimal_exponent_def)
    with that show ?thesis by simp
  next
    case False
    define q where "q = (b - 1) div a"
    have k: "nat (- decimal_exponent a b) = length (to_radix 10 q)"
      using False by (simp add: decimal_exponent_def q_def)
    show ?thesis
    proof (cases "q = 0")
      case True
      then have "length (to_radix 10 q) = 1" by (simp add: to_radix_small)
      with False show ?thesis by (simp add: k)
    next
      case nz: False
      then have "10 ^ (length (to_radix 10 q) - 1) \<le> q" by (intro to_radix_lower) simp
      then have "a * 10 ^ (length (to_radix 10 q) - 1) \<le> a * q" by (rule mult_le_mono2)
      also have "a * q \<le> b - 1" unfolding q_def by simp
      also have "b - 1 < b" using assms by simp
      finally show ?thesis by (simp only: k)
    qed
  qed
qed

lemma scaled_bounds:
  assumes "0 < a" "0 < b" "1 \<le> p"
  defines "s \<equiv> int p - 1 - decimal_exponent a b"
  shows "0 \<le> s \<Longrightarrow> b * 10 ^ (p - 1) \<le> a * 10 ^ nat s \<and> a * 10 ^ nat s < b * 10 ^ p"
    and "s < 0 \<Longrightarrow> b * 10 ^ nat (- s) * 10 ^ (p - 1) \<le> a \<and> a < b * 10 ^ nat (- s) * 10 ^ p"
proof -
  define e where "e = decimal_exponent a b"
  note L = decimal_exponent_lower [OF assms(1,2), folded e_def]
  note U = decimal_exponent_upper [OF assms(1,2), folded e_def]
  have s: "s = int p - 1 - e" by (simp add: s_def e_def)
  show "b * 10 ^ (p - 1) \<le> a * 10 ^ nat s \<and> a * 10 ^ nat s < b * 10 ^ p" if "0 \<le> s"
  proof (cases "0 \<le> e")
    case True
    have x1: "p - 1 = nat e + nat s" and x2: "p = (nat e + 1) + nat s"
      using True that assms(3) by (simp_all add: s)
    have "b * 10 ^ nat e * 10 ^ nat s \<le> a * 10 ^ nat s"
      using L(1) [OF True] by (rule mult_le_mono1)
    moreover have "a * 10 ^ nat s < b * 10 ^ (nat e + 1) * 10 ^ nat s"
      using U(1) [OF True] by simp
    moreover have "(10::nat) ^ (p - 1) = 10 ^ nat e * 10 ^ nat s"
      "(10::nat) ^ p = 10 ^ (nat e + 1) * 10 ^ nat s"
      using x1 x2 by (simp_all only: power_add [symmetric])
    ultimately show ?thesis by (simp only: mult.assoc)
  next
    case False
    then have neg: "e < 0" by simp
    have x1: "nat s = nat (- e) + (p - 1)" and x2: "nat s = (nat (- e) - 1) + p"
      using neg assms(3) by (simp_all add: s)
    have "b * 10 ^ (p - 1) \<le> a * 10 ^ nat (- e) * 10 ^ (p - 1)"
      using L(2) [OF neg] by (rule mult_le_mono1)
    moreover have "a * 10 ^ (nat (- e) - 1) * 10 ^ p < b * 10 ^ p"
      using U(2) [OF neg] by simp
    moreover have "(10::nat) ^ nat s = 10 ^ nat (- e) * 10 ^ (p - 1)"
      "(10::nat) ^ nat s = 10 ^ (nat (- e) - 1) * 10 ^ p"
      using x1 x2 by (simp_all only: power_add [symmetric])
    ultimately show ?thesis by (metis mult.assoc)
  qed
  show "b * 10 ^ nat (- s) * 10 ^ (p - 1) \<le> a \<and> a < b * 10 ^ nat (- s) * 10 ^ p" if "s < 0"
  proof -
    have pos: "0 \<le> e" using that assms(3) by (simp add: s)
    have x1: "nat e = nat (- s) + (p - 1)" and x2: "nat e + 1 = nat (- s) + p"
      using that assms(3) by (simp_all add: s)
    have "(10::nat) ^ nat e = 10 ^ nat (- s) * 10 ^ (p - 1)"
      "(10::nat) ^ (nat e + 1) = 10 ^ nat (- s) * 10 ^ p"
      using x1 x2 by (simp_all only: power_add [symmetric])
    with L(1) [OF pos] U(1) [OF pos] show ?thesis by (simp only: mult.assoc)
  qed
qed

lemma scaled_round_range:
  assumes "0 < a" "0 < b" "1 \<le> p"
  defines "n \<equiv> scaled_round a b (int p - 1 - decimal_exponent a b)"
  shows "10 ^ (p - 1) \<le> n \<and> n \<le> 10 ^ p"
proof -
  define s where "s = int p - 1 - decimal_exponent a b"
  have half: "10 ^ (p - 1) \<le> (2 * A + B) div (2 * B) \<and> (2 * A + B) div (2 * B) \<le> 10 ^ p"
    if "B * 10 ^ (p - 1) \<le> A" "A < B * 10 ^ p" "0 < B" for A B :: nat
  proof
    have "2 * B * 10 ^ (p - 1) \<le> 2 * A + B" using that(1) by simp
    then have "10 ^ (p - 1) * (2 * B) \<le> 2 * A + B" by (simp add: mult.commute)
    then show "10 ^ (p - 1) \<le> (2 * A + B) div (2 * B)"
      using that(3) by (simp add: less_eq_div_iff_mult_less_eq)
    have "2 * A + B < (10 ^ p + 1) * (2 * B)" using that(2) by (simp add: algebra_simps)
    then have "(2 * A + B) div (2 * B) < 10 ^ p + 1"
      using that(3) by (simp add: div_less_iff_less_mult)
    then show "(2 * A + B) div (2 * B) \<le> 10 ^ p" by simp
  qed
  show ?thesis
  proof (cases "0 \<le> s")
    case True
    from scaled_bounds(1) [OF assms(1-3)] True
    have "b * 10 ^ (p - 1) \<le> a * 10 ^ nat s" "a * 10 ^ nat s < b * 10 ^ p"
      by (simp_all add: s_def)
    from half [OF this assms(2)] True show ?thesis
      by (simp add: n_def scaled_round_def s_def [symmetric] mult.assoc)
  next
    case False
    with scaled_bounds(2) [OF assms(1-3)]
    have "b * 10 ^ nat (- s) * 10 ^ (p - 1) \<le> a" "a < b * 10 ^ nat (- s) * 10 ^ p"
      by (simp_all add: s_def)
    moreover have "0 < b * 10 ^ nat (- s)" using assms(2) by simp
    ultimately have "10 ^ (p - 1) \<le> (2 * a + b * 10 ^ nat (- s)) div (2 * (b * 10 ^ nat (- s)))
        \<and> (2 * a + b * 10 ^ nat (- s)) div (2 * (b * 10 ^ nat (- s))) \<le> 10 ^ p"
      by (rule half)
    with False show ?thesis
      by (simp add: n_def scaled_round_def s_def [symmetric] mult.assoc)
  qed
qed

lemma precision_digits_range:
  assumes "0 < a" "0 < b" "1 \<le> p"
  shows "10 ^ (p - 1) \<le> snd (precision_digits a b p) \<and> snd (precision_digits a b p) < 10 ^ p"
proof -
  define n where "n = scaled_round a b (int p - 1 - decimal_exponent a b)"
  have r: "10 ^ (p - 1) \<le> n" "n \<le> 10 ^ p"
    using scaled_round_range [OF assms] by (simp_all add: n_def)
  show ?thesis
  proof (cases "10 ^ p \<le> n")
    case True
    with r have "n = 10 ^ p" by simp
    moreover have "(10::nat) ^ p = 10 * 10 ^ (p - 1)"
      using assms(3) by (cases p) simp_all
    ultimately have "n div 10 = 10 ^ (p - 1)" by simp
    moreover have "(10::nat) ^ (p - 1) < 10 ^ p" using assms(3) by simp
    ultimately show ?thesis
      using True by (simp add: precision_digits_def n_def [symmetric])
  next
    case False
    with r show ?thesis by (simp add: precision_digits_def n_def [symmetric])
  qed
qed

lemma length_to_radix:
  assumes "10 ^ (p - 1) \<le> n" "n < 10 ^ p" "1 \<le> p"
  shows "length (to_radix 10 n) = p"
proof -
  have pos: "0 < n" using assms(1) by (cases "n = 0") simp_all
  have "(10::nat) ^ (p - 1) < 10 ^ length (to_radix 10 n)"
    using assms(1) to_radix_upper [of n] by (rule le_less_trans)
  then have "p - 1 < length (to_radix 10 n)"
    by (rule power_less_imp_less_exp [rotated]) simp
  moreover have "(10::nat) ^ (length (to_radix 10 n) - 1) < 10 ^ p"
    using to_radix_lower [OF pos] assms(2) by (rule le_less_trans)
  then have "length (to_radix 10 n) - 1 < p"
    by (rule power_less_imp_less_exp [rotated]) simp
  ultimately show ?thesis using assms(3) by simp
qed

text \<open>
  \<open>scaled_round a b s\<close> is \<open>a / b * 10 ^ s\<close> rounded to the nearest integer, a half going
  up: \<open>n - 1/2 \<le> a / b * 10 ^ s < n + 1/2\<close>, written without division.
\<close>

lemma scaled_round_nearest:
  fixes a b :: nat and s :: int
  assumes "0 < b"
  defines "n \<equiv> scaled_round a b s"
  shows "0 \<le> s \<Longrightarrow>
           2 * b * n \<le> 2 * a * 10 ^ nat s + b \<and> 2 * a * 10 ^ nat s < 2 * b * n + b"
    and "s < 0 \<Longrightarrow>
           2 * b * 10 ^ nat (- s) * n \<le> 2 * a + b * 10 ^ nat (- s)
         \<and> 2 * a < 2 * b * 10 ^ nat (- s) * n + b * 10 ^ nat (- s)"
proof -
  have half: "2 * B * ((2 * A + B) div (2 * B)) \<le> 2 * A + B
      \<and> 2 * A < 2 * B * ((2 * A + B) div (2 * B)) + B" if "0 < B" for A B :: nat
  proof
    show "2 * B * ((2 * A + B) div (2 * B)) \<le> 2 * A + B" by simp
    have "(2 * A + B) mod (2 * B) < 2 * B" using that by simp
    moreover have "2 * A + B = 2 * B * ((2 * A + B) div (2 * B)) + (2 * A + B) mod (2 * B)"
      by simp
    ultimately show "2 * A < 2 * B * ((2 * A + B) div (2 * B)) + B" by linarith
  qed
  show "2 * b * n \<le> 2 * a * 10 ^ nat s + b \<and> 2 * a * 10 ^ nat s < 2 * b * n + b" if "0 \<le> s"
    using half [OF assms(1), of "a * 10 ^ nat s"] that
    by (simp add: n_def scaled_round_def mult.assoc)
  show "2 * b * 10 ^ nat (- s) * n \<le> 2 * a + b * 10 ^ nat (- s)
      \<and> 2 * a < 2 * b * 10 ^ nat (- s) * n + b * 10 ^ nat (- s)" if "s < 0"
  proof -
    have "0 < b * 10 ^ nat (- s)" using assms(1) by simp
    from half [OF this, of a] that show ?thesis
      by (simp add: n_def scaled_round_def mult.assoc)
  qed
qed

text \<open>The printed digits are exactly \<open>p\<close>, as step 10.a asks.\<close>

lemma length_precision_digits:
  assumes "0 < a" "0 < b" "1 \<le> p"
  shows "length (to_radix 10 (snd (precision_digits a b p))) = p"
  using precision_digits_range [OF assms] assms(3) by (intro length_to_radix) simp_all

text \<open>Values that engines print, for comparison.\<close>

lemma replicate_numeral_unfold: "replicate (numeral k) x = x # replicate (pred_numeral k) x"
  by (simp add: numeral_eq_Suc)

lemma fraction_digits_unfold:
  "fraction_digits radix r d fuel =
     (if fuel = 0 \<or> r = 0 then []
      else digit_char (r * radix div d) # fraction_digits radix (r * radix mod d) d (fuel - 1))"
  by (cases fuel) simp_all

lemma toPrecision_examples:
  "Number_toPrecision (Finite 3602879701896397 (- 55)) 1 = Inr ''0.1''"
  "Number_toPrecision (Finite 3602879701896397 (- 55)) 20 = Inr ''0.10000000000000000555''"
  "Number_toPrecision (Finite 995 0) 2 = Inr ''1.0e+3''"
  "Number_toPrecision (Finite 25 (- 1)) 1 = Inr ''1e+1''"
  "Number_toPrecision (Finite 1 (- 21)) 3 = Inr ''4.77e-7''"
  "Number_toPrecision (Finite 1 (- 20)) 3 = Inr ''9.54e-7''"
  "Number_toPrecision (Finite 5 (- 3)) 3 = Inr ''0.625''"
  "Number_toPrecision (Finite 1 70) 25 = Inr ''1180591620717411303424.000''"
  "Number_toPrecision (Finite (- 125) 0) 2 = Inr ''-1.3e+2''"
  "Number_toPrecision (Finite 0 0) 3 = Inr ''0.00''"
  "Number_toPrecision (Finite 1 0) 101 = Inl RangeError"
  "Number_toPrecision NaN 101 = Inr ''NaN''"
  by (simp_all add: number_eval replicate_numeral_unfold)

lemma toString_examples:
  "Number_toString (Finite 255 0) 16 = Inr ''ff''"
  "Number_toString (Finite 1 70) 16 = Inr ''400000000000000000''"
  "Number_toString (Finite 5 (- 1)) 8 = Inr ''2.4''"
  "Number_toString (Finite 3602879701896397 (- 55)) 16 = Inr ''0.1999999999999a''"
  "Number_toString PosInfinity 2 = Inr ''Infinity''"
  by (simp_all add: number_eval fraction_digits_unfold)

section \<open>The claims\<close>

text \<open>
  C1, as amended. With the decoded value zero the predicate returns false on the texts
  "0" and "0.0". The visitor reports none of "0", "0.0" and "0e5": zero is falsy, and the
  visitor asks the predicate only about truthy values.
\<close>

theorem C1_zero_forms:
  "losesPrecision \<lparr>raw = ''0'', val = JNumber (Finite 0 e)\<rparr> = Inr False
   \<and> losesPrecision \<lparr>raw = ''0.0'', val = JNumber (Finite 0 e)\<rparr> = Inr False
   \<and> Literal \<lparr>raw = ''0'', val = JNumber (Finite 0 e)\<rparr> = Inr []
   \<and> Literal \<lparr>raw = ''0.0'', val = JNumber (Finite 0 e)\<rparr> = Inr []
   \<and> Literal \<lparr>raw = ''0e5'', val = JNumber (Finite 0 e)\<rparr> = Inr []"
  by (simp add: zero_losesPrecision Literal_falsy ToBoolean_def)

text \<open>
  C1 as stated fails at "0e5". The text normalizes to \<open>0.e4\<close>; the decoded value zero
  prints as "0" at precision 1, which normalizes to \<open>0.e-1\<close>; the two differ, and the
  predicate returns true.
\<close>

theorem C1_exponent_zero_counterexample:
  "losesPrecision \<lparr>raw = ''0e5'', val = JNumber (Finite 0 0)\<rparr> = Inr True"
  by (rule zero_losesPrecision)

text \<open>
  C2, as amended. Let \<open>a\<close> and \<open>b\<close> be digit strings, \<open>a\<close> not empty and without a leading zero,
  the digits \<open>a b\<close> without a trailing zero, and \<open>k\<close> an exponent that integer arithmetic on
  doubles keeps exact. The fractional text \<open>a.b\<close>e\<open>k\<close>, the integer text \<open>ab\<close>e\<open>(k - |b|)\<close>, the
  text \<open>0.0...0ab\<close>e\<open>(k + |a| + j)\<close> with \<open>j\<close> zeros after the point and, without an exponent,
  the texts \<open>a.b\<close> and \<open>ab\<close>, all normalize to the digits \<open>ab\<close> with a point after the first
  digit, followed by the magnitude that the place of the point gives. The three texts
  "123.45", "1.2345e2" and "12345e-2" normalize to the same string.
\<close>

theorem C2_surface_forms:
  assumes "list_all is_digit a" "list_all is_digit b" "a \<noteq> []" "hd a \<noteq> CHR ''0''"
    and "last (a @ b) \<noteq> CHR ''0''"
    and "\<bar>k\<bar> + int (length a) + int (length b) + int j < 2 ^ 53"
  shows "convertNumberToScientificNotation (a @ ''.'' @ b @ ''e'' @ integer_toString k)
           = scientific (a @ b) (k + int (length a) - 1)
       \<and> convertNumberToScientificNotation (a @ b @ ''e'' @ integer_toString (k - int (length b)))
           = scientific (a @ b) (k + int (length a) - 1)
       \<and> convertNumberToScientificNotation
           (''0.'' @ replicate j CHR ''0'' @ a @ b @ ''e'' @ integer_toString (k + int (length a) + int j))
           = scientific (a @ b) (k + int (length a) - 1)
       \<and> convertNumberToScientificNotation (a @ ''.'' @ b) = scientific (a @ b) (int (length a) - 1)
       \<and> convertNumberToScientificNotation (a @ b) = scientific (a @ b) (int (length a) + int (length b) - 1)
       \<and> convertNumberToScientificNotation ''123.45'' = convertNumberToScientificNotation ''1.2345e2''
       \<and> convertNumberToScientificNotation ''1.2345e2'' = convertNumberToScientificNotation ''12345e-2''"
proof -
  let ?d = "a @ b"
  have d: "?d \<noteq> []" "hd ?d \<noteq> CHR ''0''" "hd ?d = hd a" "tl ?d = tl a @ b"
    using assms by simp_all
  have na: "CHR ''e'' \<notin> set a" "CHR ''E'' \<notin> set a" "CHR ''.'' \<notin> set a"
    and nb: "CHR ''e'' \<notin> set b" "CHR ''E'' \<notin> set b" "CHR ''.'' \<notin> set b"
    using assms digits_no_letters by blast+
  have float: "normalizeFloat (a @ CHR ''.'' # b) =
      \<lparr>magnitude = int (length a) - 1, coefficient = hd a # CHR ''.'' # tl a @ b\<rparr>"
    using assms by (simp add: normalizeFloat_digits)
  have small: "normalizeFloat (''0.'' @ replicate j CHR ''0'' @ ?d) =
      \<lparr>magnitude = - int j - 1, coefficient = hd a # CHR ''.'' # tl a @ b\<rparr>"
    using normalizeFloat_small [of ?d j] d by simp
  have whole: "normalizeInteger ?d =
      \<lparr>magnitude = int (length a) + int (length b) - 1, coefficient = hd a # CHR ''.'' # tl a @ b\<rparr>"
    using normalizeInteger_digits [of ?d] d assms by simp
  have 1: "convertNumberToScientificNotation (a @ ''.'' @ b @ ''e'' @ integer_toString k)
      = scientific ?d (k + int (length a) - 1)"
    using convert_exponent [of "a @ CHR ''.'' # b" k] na nb float d
    by (simp add: scientific_def algebra_simps)
  have 2: "convertNumberToScientificNotation (?d @ ''e'' @ integer_toString (k - int (length b)))
      = scientific ?d (k + int (length a) - 1)"
    using convert_exponent [of ?d "k - int (length b)"] na nb whole d
    by (simp add: scientific_def algebra_simps)
  have 3: "convertNumberToScientificNotation
      (''0.'' @ replicate j CHR ''0'' @ ?d @ ''e'' @ integer_toString (k + int (length a) + int j))
      = scientific ?d (k + int (length a) - 1)"
    using convert_exponent [of "''0.'' @ replicate j CHR ''0'' @ ?d" "k + int (length a) + int j"]
      na nb small d
    by (simp add: scientific_def algebra_simps)
  have 4: "convertNumberToScientificNotation (a @ ''.'' @ b) = scientific ?d (int (length a) - 1)"
    using convert_plain [of "a @ CHR ''.'' # b"] na nb float d
    by (simp add: scientific_def)
  have 5: "convertNumberToScientificNotation ?d = scientific ?d (int (length a) + int (length b) - 1)"
    using convert_plain [of ?d] na nb whole d
    by (simp add: scientific_def)
  have 6: "convertNumberToScientificNotation ''123.45'' = convertNumberToScientificNotation ''1.2345e2''"
    "convertNumberToScientificNotation ''1.2345e2'' = convertNumberToScientificNotation ''12345e-2''"
    by (simp_all only: convert_examples)
  from 1 2 3 4 5 6 show ?thesis by (simp only: append_assoc simp_thms)
qed

text \<open>
  C2 as stated fails at "1.0" and "1", two texts of the number one: the zeros that end a
  fraction stay in the coefficient, the zeros that end an integer do not.
\<close>

theorem C2_trailing_zero_counterexample:
  "convertNumberToScientificNotation ''1.0'' = ''1.0e0''
   \<and> convertNumberToScientificNotation ''1'' = ''1.e0''
   \<and> convertNumberToScientificNotation ''1.0'' \<noteq> convertNumberToScientificNotation ''1''"
proof -
  have "convertNumberToScientificNotation ''1.0'' = ''1.0e0''"
    "convertNumberToScientificNotation ''1'' = ''1.e0''"
    by code_simp+
  then show ?thesis by simp
qed

text \<open>
  The amended C2 at \<open>a\<close> = "123", \<open>b\<close> = "45", \<open>k = 0\<close> and \<open>j = 2\<close>.
\<close>

theorem C2_surface_forms_witness:
  "convertNumberToScientificNotation ''123.45e0'' = ''1.2345e2''
   \<and> convertNumberToScientificNotation ''12345e-2'' = ''1.2345e2''
   \<and> convertNumberToScientificNotation ''0.0012345e5'' = ''1.2345e2''
   \<and> convertNumberToScientificNotation ''123.45'' = ''1.2345e2''
   \<and> convertNumberToScientificNotation ''12345'' = ''1.2345e4''"
proof -
  have h: "list_all is_digit ''123''" "list_all is_digit ''45''" "''123'' \<noteq> []"
    "hd ''123'' \<noteq> CHR ''0''" "last (''123'' @ ''45'') \<noteq> CHR ''0''"
    "\<bar>0\<bar> + int (length ''123'') + int (length ''45'') + int 2 < 2 ^ 53"
    by (simp_all add: is_digit_def)
  from C2_surface_forms [OF h] show ?thesis
    by (simp add: scientific_def integer_text_eval numeral_2_eq_2)
qed

text \<open>
  C3. The literal 9007199254740993 is \<open>2^53 + 1\<close>; the double nearest to it is
  \<open>2^53 = 9007199254740992\<close>, which is the value the parser puts in the node. With that
  value the predicate returns true on the text "9007199254740993" and false on the text
  "9007199254740992".
\<close>

theorem C3_boundary_of_exact_integers:
  "losesPrecision \<lparr>raw = ''9007199254740993'', val = JNumber (Finite 9007199254740992 0)\<rparr>
     = Inr True
   \<and> losesPrecision \<lparr>raw = ''9007199254740992'', val = JNumber (Finite 9007199254740992 0)\<rparr>
     = Inr False"
proof -
  have ten: "isBaseTen \<lparr>raw = ''9007199254740993'', val = v\<rparr>"
    "isBaseTen \<lparr>raw = ''9007199254740992'', val = v\<rparr>" for v
    by (simp_all add: isBaseTen_def legacy_octal_def is_octal_digit_def String_startsWith_def)
  have raw: "getRaw \<lparr>raw = ''9007199254740993'', val = v\<rparr> = ''9007199254740993''"
    "getRaw \<lparr>raw = ''9007199254740992'', val = v\<rparr> = ''9007199254740992''" for v
    by (simp_all add: getRaw_def String_removeAll_def)
  show ?thesis
    by (simp add: losesPrecision_def baseTenLosesPrecision_def ten raw convert_2_53_plus_1
        convert_2_53 requestedPrecision_2_53 toPrecision_2_53)
qed

text \<open>
  C4. Let the text of a node start with a radix prefix (0x, 0b or 0o, in either case) or be
  a legacy octal literal, and let its value be a number. Then rendering the value in the
  radix of the literal does not fail, and the predicate returns true exactly when the raw
  digits (prefix and separators stripped, upper case) do not end with the rendered text
  in upper case. For a value that is a non-negative integer the rendered text is its
  digits in that radix. The value zero renders as "0", so on raw digits that are all
  zeros the predicate returns false.
\<close>

theorem C4_radix_literals:
  assumes "spec_radix (raw node) = Some base" and "val node = JNumber x"
  shows "\<exists>rendered.
           Number_toString x base = Inr rendered
         \<and> losesPrecision node =
             Inr (\<not> String_endsWith (spec_rawDigits (raw node)) (String_toUpperCase rendered))
         \<and> (\<forall>m e. x = Finite m e \<and> 0 \<le> m \<and> 0 \<le> e \<longrightarrow>
               rendered = to_radix base (nat m * 2 ^ nat e))
         \<and> (\<forall>e. x = Finite 0 e \<longrightarrow> rendered = ''0'')
         \<and> (\<forall>e. x = Finite 0 e \<and> spec_rawDigits (raw node) \<noteq> [] \<and> all_zeros (spec_rawDigits (raw node))
               \<longrightarrow> losesPrecision node = Inr False)"
proof -
  have nb: "losesPrecision node = notBaseTenLosesPrecision node"
    using spec_radix_not_base_ten [OF assms(1)] by (simp add: losesPrecision_def)
  have "\<exists>rendered. Number_toString x base = Inr rendered \<and>
      losesPrecision node =
        Inr (\<not> String_endsWith (spec_rawDigits (raw node)) (String_toUpperCase rendered))"
  proof (cases "radix_prefix (raw node)")
    case None
    with assms(1) have leg: "legacy_octal (raw node)" "base = 8"
      by (simp_all add: spec_radix_def split: if_splits)
    have "spec_rawDigits (raw node) = raw node"
      using None legacy_octal_text(1) [OF leg(1)] by (simp add: spec_rawDigits_def)
    then show ?thesis
      using notBaseTen_legacy [OF leg(1) assms(2)] leg(2) nb by simp
  next
    case (Some b')
    with assms(1) have b: "b' = base" by (simp add: spec_radix_def)
    from Some obtain c ds where t: "raw node = CHR ''0'' # c # ds"
      "b' = 16 \<and> upper_char c = CHR ''X'' \<or> b' = 2 \<and> upper_char c = CHR ''B''
         \<or> b' = 8 \<and> upper_char c = CHR ''O''"
      by (rule radix_prefix_SomeD)
    have "spec_rawDigits (raw node) = String_toUpperCase (String_removeAll ds CHR ''_'')"
      using Some t(1) by (simp add: spec_rawDigits_def)
    then show ?thesis
      using notBaseTen_prefixed [OF t(1) assms(2) t(2)] b nb by simp
  qed
  then obtain rendered where r: "Number_toString x base = Inr rendered"
    "losesPrecision node =
        Inr (\<not> String_endsWith (spec_rawDigits (raw node)) (String_toUpperCase rendered))"
    by blast
  have base: "2 \<le> base" using r(1) by (auto simp: Number_toString_def split: if_splits)
  have int: "rendered = to_radix base (nat m * 2 ^ nat e)" if "x = Finite m e" "0 \<le> m" "0 \<le> e" for m e
    using r(1) that by (auto simp: Number_toString_def finite_toString_integer split: if_splits)
  have zero: "rendered = ''0''" if "x = Finite 0 e" for e
    using r(1) that base by (auto simp: Number_toString_def finite_toString_zero split: if_splits)
  have "losesPrecision node = Inr False"
    if "x = Finite 0 e" "spec_rawDigits (raw node) \<noteq> []" "all_zeros (spec_rawDigits (raw node))" for e
    using r(2) zero [OF that(1)] String_endsWith_zero [OF that(2,3)]
    by (simp add: String_toUpperCase_def upper_char_fixed)
  with r int zero show ?thesis by blast
qed

text \<open>
  C4 at the hex literal 0x20000000000001 (decoded as \<open>2^53\<close>: true), at the legacy octal
  literal 0777 (decoded as 511, which is 777 in base 8 and not in base 10: false) and at
  the binary zero 0b0_00 (false).
\<close>

theorem C4_radix_literals_witness:
  "losesPrecision \<lparr>raw = ''0x20000000000001'', val = JNumber (Finite 1 53)\<rparr> = Inr True
   \<and> losesPrecision \<lparr>raw = ''0777'', val = JNumber (Finite 511 0)\<rparr> = Inr False
   \<and> spec_radix ''0777'' = Some 8
   \<and> losesPrecision \<lparr>raw = ''0b0_00'', val = JNumber (Finite 0 0)\<rparr> = Inr False"
proof -
  have up: "String_toUpperCase ''20000000000000'' = ''20000000000000''"
    "String_toUpperCase ''777'' = ''777''"
    by code_simp+
  have hex: "spec_radix ''0x20000000000001'' = Some 16"
    "spec_rawDigits ''0x20000000000001'' = ''20000000000001''"
    and oct: "spec_radix ''0777'' = Some 8" "spec_rawDigits ''0777'' = ''0777''"
    and bin: "spec_radix ''0b0_00'' = Some 2" "spec_rawDigits ''0b0_00'' = ''000''"
    by code_simp+
  have r: "to_radix 16 9007199254740992 = ''20000000000000''" "to_radix 8 511 = ''777''"
    by (simp_all add: to_radix.simps digit_char_def)
  have 1: "losesPrecision \<lparr>raw = ''0x20000000000001'', val = JNumber (Finite 1 53)\<rparr> = Inr True"
    using C4_radix_literals [of "\<lparr>raw = ''0x20000000000001'', val = JNumber (Finite 1 53)\<rparr>" 16 "Finite 1 53"]
    by (auto simp: hex r up String_endsWith_def)
  have 2: "losesPrecision \<lparr>raw = ''0777'', val = JNumber (Finite 511 0)\<rparr> = Inr False"
    using C4_radix_literals [of "\<lparr>raw = ''0777'', val = JNumber (Finite 511 0)\<rparr>" 8 "Finite 511 0"]
    by (auto simp: oct r up String_endsWith_def)
  have 3: "losesPrecision \<lparr>raw = ''0b0_00'', val = JNumber (Finite 0 0)\<rparr> = Inr False"
    using C4_radix_literals [of "\<lparr>raw = ''0b0_00'', val = JNumber (Finite 0 0)\<rparr>" 2 "Finite 0 0"]
    by (auto simp: bin)
  from 1 2 3 oct(1) show ?thesis by simp
qed

text \<open>
  C5, as amended. For a mantissa in integer form that is not empty and has at most one
  leading zero, the magnitude is the length of the mantissa minus one, and one less when
  its first character is 0. For a mantissa without a leading zero and for the mantissa
  "0" that is the magnitude of the specification; for a 0 followed by other digits it is
  the length after stripping the leading zero, minus one, with no further adjustment. The
  coefficient is the significant digits (leading, then trailing zeros stripped) with a
  point after the first digit.
\<close>

theorem C5_integer_form:
  assumes "s \<noteq> []" and "\<not> String_startsWith s ''00''"
  shows "magnitude (normalizeInteger s)
           = int (length s) - 1 - (if String_startsWith s ''0'' then 1 else 0)
       \<and> (\<not> String_startsWith s ''0'' \<or> s = ''0'' \<longrightarrow>
            magnitude (normalizeInteger s) = spec_integer_magnitude s)
       \<and> (String_startsWith s ''0'' \<and> s \<noteq> ''0'' \<longrightarrow>
            magnitude (normalizeInteger s) = int (length (removeLeadingZeros s)) - 1)
       \<and> removeTrailingZeros (removeLeadingZeros s) \<noteq> []
       \<and> coefficient (normalizeInteger s)
           = hd (removeTrailingZeros (removeLeadingZeros s)) # CHR ''.''
               # tl (removeTrailingZeros (removeLeadingZeros s))"
proof -
  define sig where "sig = removeTrailingZeros (removeLeadingZeros s)"
  have sw: "String_startsWith s ''0'' \<longleftrightarrow> hd s = CHR ''0''"
    using assms(1) by (simp add: String_startsWith_single)
  have 1: "magnitude (normalizeInteger s)
      = int (length s) - 1 - (if String_startsWith s ''0'' then 1 else 0)"
    using assms(1) by (simp add: normalizeInteger_eq sw)
  have 2: "magnitude (normalizeInteger s) = spec_integer_magnitude s"
    if "\<not> String_startsWith s ''0'' \<or> s = ''0''"
  proof (cases "s = ''0''")
    case True
    then show ?thesis
      by (simp add: normalizeInteger_eq spec_integer_magnitude_def removeLeadingZeros_eq
          String_startsWith_def)
  next
    case False
    with that have "hd s \<noteq> CHR ''0''" by (simp add: sw)
    then show ?thesis
      using assms(1)
      by (simp add: 1 spec_integer_magnitude_def removeLeadingZeros_nonzero_hd)
  qed
  have 3: "magnitude (normalizeInteger s) = int (length (removeLeadingZeros s)) - 1"
    if "String_startsWith s ''0'' \<and> s \<noteq> ''0''"
  proof -
    from that assms obtain c r where s: "s = CHR ''0'' # c # r" "c \<noteq> CHR ''0''"
      by (cases s; cases "tl s") (auto simp: String_startsWith_def)
    then show ?thesis
      by (simp add: normalizeInteger_eq removeLeadingZeros_eq)
  qed
  have ne: "sig \<noteq> []"
    using assms(1) by (simp add: sig_def removeLeadingZeros_not_Nil removeTrailingZeros_not_Nil)
  then have 4: "coefficient (normalizeInteger s) = hd sig # CHR ''.'' # tl sig"
    by (cases sig) (simp_all add: normalizeInteger_eq sig_def [symmetric] addDecimalPointToNumber_Cons)
  from 1 2 3 ne 4 show ?thesis unfolding sig_def by blast
qed

text \<open>
  C5 as stated fails at the mantissa "08" (the literal 08 is decimal): the first character
  is 0 and the length after stripping leading zeros is 1, but the magnitude is 0, the
  length minus one with no adjustment.
\<close>

theorem C5_leading_zero_counterexample:
  "magnitude (normalizeInteger ''08'') = 0
   \<and> String_startsWith ''08'' ''0''
   \<and> int (length (removeLeadingZeros ''08'')) - 1 = 0
   \<and> spec_integer_magnitude ''08'' = - 1"
  by (simp add: normalizeInteger_eq String_startsWith_def removeLeadingZeros_eq
      spec_integer_magnitude_def)

text \<open>
  The amended C5 at the mantissas "08", "1200" and "0".
\<close>

theorem C5_integer_form_witness:
  "magnitude (normalizeInteger ''08'') = 0
   \<and> coefficient (normalizeInteger ''08'') = ''8.''
   \<and> magnitude (normalizeInteger ''1200'') = 3
   \<and> coefficient (normalizeInteger ''1200'') = ''1.2''
   \<and> magnitude (normalizeInteger ''0'') = - 1
   \<and> coefficient (normalizeInteger ''0'') = ''0.''"
proof -
  have a: "''08'' \<noteq> []" "\<not> String_startsWith ''08'' ''00''"
    and b: "''1200'' \<noteq> []" "\<not> String_startsWith ''1200'' ''00''"
    and c: "''0'' \<noteq> []" "\<not> String_startsWith ''0'' ''00''"
    by (simp_all add: String_startsWith_def)
  have sig: "removeTrailingZeros (removeLeadingZeros ''08'') = ''8''"
    "removeTrailingZeros (removeLeadingZeros ''1200'') = ''12''"
    "removeTrailingZeros (removeLeadingZeros ''0'') = ''0''"
    by code_simp+
  show ?thesis
    using C5_integer_form [OF a] C5_integer_form [OF b] C5_integer_form [OF c]
    by (simp add: sig String_startsWith_def)
qed

text \<open>
  C6, as amended. Let the text of a node (separators stripped) be a decimal literal whose
  mantissa is not zeros followed by a point without fraction digits, and let its value be
  a finite number that is not negative. Then the coefficient normalized from the text is
  one digit, a point and digits, and its first digit is zero only for a mantissa that
  denotes zero. When the requested precision is at most 100, the value is rendered, the
  predicate compares the two normal forms, and the coefficient normalized from the
  rendered text has the same shape, with a first digit that is zero only for the value
  zero.
\<close>

theorem C6_coefficients:
  assumes "decimal_literal (getRaw node)"
    and "\<not> zero_point (mantissa_of (getRaw node))"
    and "val node = JNumber (Finite m e)" and "0 \<le> m"
  shows "well_formed (getRaw node)
       \<and> (hd (coefficient (normalizedNumber (getRaw node))) = CHR ''0''
            \<longrightarrow> zero_mantissa (mantissa_of (getRaw node)))
       \<and> (requestedPrecision (convertNumberToScientificNotation (getRaw node)) \<le> 100 \<longrightarrow>
            (\<exists>stored.
               toPrecision (val node)
                 (requestedPrecision (convertNumberToScientificNotation (getRaw node))) = Inr stored
             \<and> baseTenLosesPrecision node =
                 Inr (convertNumberToScientificNotation (getRaw node)
                        \<noteq> convertNumberToScientificNotation stored)
             \<and> well_formed stored
             \<and> (hd (coefficient (normalizedNumber stored)) = CHR ''0'' \<longrightarrow> m = 0)))"
proof -
  let ?t = "getRaw node"
  let ?p = "requestedPrecision (convertNumberToScientificNotation ?t)"
  have N: "normalizedNumber ?t =
      (if CHR ''.'' \<in> set (mantissa_of ?t) then normalizeFloat (mantissa_of ?t)
       else normalizeInteger (mantissa_of ?t))"
    using assms(1) by (rule decimal_literal_normalizedNumber)
  have dm: "decimal_mantissa (mantissa_of ?t)"
    using assms(1) by (simp add: decimal_literal_def)
  have raw1: "well_formed ?t"
    unfolding well_formed_def N using dm assms(2) by (rule decimal_mantissa_coefficient(1))
  have raw2: "zero_mantissa (mantissa_of ?t)" if "hd (coefficient (normalizedNumber ?t)) = CHR ''0''"
    using dm assms(2) that [unfolded N] by (rule decimal_mantissa_coefficient(2))
  have p1: "1 \<le> ?p" by (rule requestedPrecision_convert(1))
  have stored: "\<exists>stored. toPrecision (val node) ?p = Inr stored
      \<and> baseTenLosesPrecision node =
          Inr (convertNumberToScientificNotation ?t \<noteq> convertNumberToScientificNotation stored)
      \<and> well_formed stored
      \<and> (hd (coefficient (normalizedNumber stored)) = CHR ''0'' \<longrightarrow> m = 0)"
    if "?p \<le> 100"
  proof -
    have tp: "toPrecision (val node) ?p = Inr (finite_toPrecision m e ?p)"
      using p1 that by (simp add: assms(3) toPrecision_def Number_toPrecision_def)
    then have "baseTenLosesPrecision node =
        Inr (convertNumberToScientificNotation ?t
              \<noteq> convertNumberToScientificNotation (finite_toPrecision m e ?p))"
      using that by (simp add: baseTenLosesPrecision_def Let_def)
    moreover have "well_formed (finite_toPrecision m e ?p)
        \<and> (hd (coefficient (normalizedNumber (finite_toPrecision m e ?p))) = CHR ''0'' \<longrightarrow> m = 0)"
    proof (cases "m = 0")
      case True
      then show ?thesis using finite_toPrecision_zero [OF p1, of e] by simp
    next
      case False
      with assms(4) have "0 < m" by simp
      from finite_toPrecision_positive [OF this p1, of e] False show ?thesis by simp
    qed
    ultimately show ?thesis using tp by blast
  qed
  from raw1 raw2 stored show ?thesis by blast
qed

text \<open>
  C6 as stated fails at the literal 1e999, a decimal literal whose decoded value is
  Infinity and truthy: at precision 1 the value prints as "Infinity", and the coefficient
  normalized from that text is "I.nfinity". The predicate still returns true.
\<close>

theorem C6_infinity_counterexample:
  "isBaseTen \<lparr>raw = ''1e999'', val = JNumber PosInfinity\<rparr>
   \<and> ToBoolean (val \<lparr>raw = ''1e999'', val = JNumber PosInfinity\<rparr>)
   \<and> requestedPrecision (convertNumberToScientificNotation (getRaw \<lparr>raw = ''1e999'', val = JNumber PosInfinity\<rparr>)) = 1
   \<and> toPrecision (val \<lparr>raw = ''1e999'', val = JNumber PosInfinity\<rparr>) 1 = Inr ''Infinity''
   \<and> coefficient (normalizedNumber ''Infinity'') = ''I.nfinity''
   \<and> \<not> canonical_coefficient ''I.nfinity''
   \<and> losesPrecision \<lparr>raw = ''1e999'', val = JNumber PosInfinity\<rparr> = Inr True"
proof -
  have ten: "isBaseTen \<lparr>raw = ''1e999'', val = JNumber PosInfinity\<rparr>"
    by (simp add: isBaseTen_def legacy_octal_def String_startsWith_def)
  have raw: "getRaw \<lparr>raw = ''1e999'', val = JNumber PosInfinity\<rparr> = ''1e999''"
    by (simp add: getRaw_def String_removeAll_def)
  have conv: "convertNumberToScientificNotation ''1e999'' = ''1.e999''"
    "requestedPrecision ''1.e999'' = 1"
    "convertNumberToScientificNotation ''Infinity'' = ''I.nfinitye7''"
    "coefficient (normalizedNumber ''Infinity'') = ''I.nfinity''"
    by code_simp+
  have inf: "toPrecision (JNumber PosInfinity) p = Inr ''Infinity''" for p
    by (simp add: toPrecision_def Number_toPrecision_def)
  have "\<not> canonical_coefficient ''I.nfinity''"
    by (simp add: canonical_coefficient_def is_digit_def)
  then show ?thesis
    using ten raw conv inf
    by (simp add: losesPrecision_def baseTenLosesPrecision_def ToBoolean_def)
qed

text \<open>
  The amended C6 at the literal 0.5, decoded as \<open>1 * 2^-1\<close>.
\<close>

theorem C6_coefficients_witness:
  "decimal_literal ''0.5''
   \<and> \<not> zero_point (mantissa_of ''0.5'')
   \<and> well_formed ''0.5''
   \<and> coefficient (normalizedNumber ''0.5'') = ''5.''
   \<and> (\<exists>stored. toPrecision (JNumber (Finite 1 (- 1))) 1 = Inr stored \<and> well_formed stored
         \<and> hd (coefficient (normalizedNumber stored)) \<noteq> CHR ''0'')"
proof -
  define node where "node = \<lparr>raw = ''0.5'', val = JNumber (Finite 1 (- 1))\<rparr>"
  have raw: "getRaw node = ''0.5''" by (simp add: node_def getRaw_def String_removeAll_def)
  have h1: "decimal_literal (getRaw node)"
    unfolding raw
    by (simp add: decimal_literal_def decimal_mantissa_def exponent_part_def mantissa_of_def
        exponent_of_def not_exponent_marker_def is_digit_def)
  have h2: "\<not> zero_point (mantissa_of (getRaw node))"
    unfolding raw by (simp add: zero_point_def mantissa_of_def not_exponent_marker_def)
  have h3: "val node = JNumber (Finite 1 (- 1))" by (simp add: node_def)
  have p: "requestedPrecision (convertNumberToScientificNotation ''0.5'') = 1"
    "coefficient (normalizedNumber ''0.5'') = ''5.''"
    by code_simp+
  note T = C6_coefficients [OF h1 h2 h3]
  from T have a: "well_formed ''0.5''" by (simp add: raw)
  from T obtain stored where s: "toPrecision (JNumber (Finite 1 (- 1))) 1 = Inr stored"
    "well_formed stored" "hd (coefficient (normalizedNumber stored)) = CHR ''0'' \<longrightarrow> (1::int) = 0"
    by (auto simp: raw p h3)
  then have "\<exists>stored. toPrecision (JNumber (Finite 1 (- 1))) 1 = Inr stored \<and> well_formed stored
         \<and> hd (coefficient (normalizedNumber stored)) \<noteq> CHR ''0''"
    by auto
  with a h1 h2 p show ?thesis by (simp add: raw)
qed

text \<open>
  C7, as amended. A text in canonical form whose leading digit is not zero (one digit from
  1 to 9, a point, digits, the letter e and an integer magnitude that doubles keep exact)
  is normalized to itself.
\<close>

theorem C7_canonical_fixed:
  assumes "is_digit d" "d \<noteq> CHR ''0''" "list_all is_digit ds" "\<bar>k\<bar> < 2 ^ 53"
  shows "convertNumberToScientificNotation (d # ''.'' @ ds @ ''e'' @ integer_toString k)
           = d # ''.'' @ ds @ ''e'' @ integer_toString k"
proof -
  have "normalizeFloat ([d] @ CHR ''.'' # ds) = \<lparr>magnitude = 0, coefficient = d # CHR ''.'' # ds\<rparr>"
    using normalizeFloat_digits [of "[d]" ds] assms by simp
  moreover have "CHR ''e'' \<notin> set ([d] @ CHR ''.'' # ds)" "CHR ''E'' \<notin> set ([d] @ CHR ''.'' # ds)"
    using assms digits_no_letters [of ds] digits_no_letters [of "[d]"] by auto
  ultimately show ?thesis
    using convert_exponent [of "[d] @ CHR ''.'' # ds" k] by simp
qed

text \<open>
  C7 as stated fails at the canonical form of zero: the normalizer produces \<open>0.e-1\<close> from
  the text "0", and normalizing \<open>0.e-1\<close> gives \<open>undefined.e-2\<close>.
\<close>

theorem C7_zero_counterexample:
  "convertNumberToScientificNotation ''0'' = ''0.e-1''
   \<and> convertNumberToScientificNotation ''0.e-1'' = ''undefined.e-2''
   \<and> convertNumberToScientificNotation ''0.e-1'' \<noteq> ''0.e-1''"
proof -
  have "convertNumberToScientificNotation ''0'' = ''0.e-1''"
    "convertNumberToScientificNotation ''0.e-1'' = ''undefined.e-2''"
    by code_simp+
  then show ?thesis by simp
qed

text \<open>
  The amended C7 at the canonical forms of 123.45 and of \<open>2^53 + 1\<close>.
\<close>

theorem C7_canonical_fixed_witness:
  "convertNumberToScientificNotation ''1.2345e2'' = ''1.2345e2''
   \<and> convertNumberToScientificNotation ''9.007199254740993e15'' = ''9.007199254740993e15''"
proof -
  have a: "is_digit CHR ''1''" "CHR ''1'' \<noteq> CHR ''0''" "list_all is_digit ''2345''" "\<bar>2\<bar> < (2::int) ^ 53"
    and b: "is_digit CHR ''9''" "CHR ''9'' \<noteq> CHR ''0''" "list_all is_digit ''007199254740993''"
      "\<bar>15\<bar> < (2::int) ^ 53"
    by (simp_all add: is_digit_def)
  from C7_canonical_fixed [OF a] C7_canonical_fixed [OF b] show ?thesis
    by (simp add: integer_text_eval)
qed

text \<open>
  C8. When the coefficient normalized from a decimal literal holds more than 100 digits,
  the predicate returns true, whatever the value of the node is: the value is never
  rendered, and the result is a boolean, not an exception.
\<close>

theorem C8_more_than_100_digits:
  assumes "isBaseTen node"
    and "100 < length (filter is_digit (coefficient (normalizedNumber (getRaw node))))"
  shows "losesPrecision node = Inr True"
proof -
  have "100 < requestedPrecision (convertNumberToScientificNotation (getRaw node))"
    using assms(2) requestedPrecision_convert(2) [of "getRaw node"] by simp
  with assms(1) show ?thesis
    by (simp add: losesPrecision_def baseTenLosesPrecision_def)
qed

text \<open>
  C8 at a literal of 101 significant digits whose node carries the value null, which has
  no method \<^verbatim>\<open>toPrecision\<close>: the predicate returns true without calling it.
\<close>

theorem C8_more_than_100_digits_witness:
  "losesPrecision
     \<lparr>raw = ''1000000000000000000000000000000000000000000000000000000000000000000000000000000000000000000000000000.1'',
      val = JNull\<rparr> = Inr True"
proof -
  let ?r = "''1000000000000000000000000000000000000000000000000000000000000000000000000000000000000000000000000000.1''"
  let ?n = "\<lparr>raw = ?r, val = JNull\<rparr>"
  have raw: "getRaw ?n = ?r" by (simp add: getRaw_def String_removeAll_def)
  have "isBaseTen ?n" by (simp add: isBaseTen_def legacy_octal_def String_startsWith_def)
  moreover have "length (filter is_digit (coefficient (normalizedNumber ?r))) = 101"
    by code_simp
  ultimately show ?thesis by (intro C8_more_than_100_digits) (simp_all add: raw)
qed

text \<open>
  C9. On every text and every number value the predicate returns a boolean. On no node at
  all does it throw a RangeError, the exception of a precision outside 1 to 100 or of a
  radix outside 2 to 36; the requested precision is never below 1. The zero literals "0",
  "0.0", "0e0" and "0x0" give false, and the digit strings that the zero-stripping steps
  hand on for them are not empty, so that the coefficient is \<open>0.\<close> and never the text of
  an undefined first character.
\<close>

theorem C9_total_without_exception:
  "(\<exists>b. losesPrecision \<lparr>raw = r, val = JNumber x\<rparr> = Inr b)
   \<and> losesPrecision node \<noteq> Inl RangeError
   \<and> 1 \<le> requestedPrecision (convertNumberToScientificNotation t)
   \<and> losesPrecision \<lparr>raw = ''0'', val = JNumber (Finite 0 e)\<rparr> = Inr False
   \<and> losesPrecision \<lparr>raw = ''0.0'', val = JNumber (Finite 0 e)\<rparr> = Inr False
   \<and> losesPrecision \<lparr>raw = ''0e0'', val = JNumber (Finite 0 e)\<rparr> = Inr False
   \<and> losesPrecision \<lparr>raw = ''0x0'', val = JNumber (Finite 0 e)\<rparr> = Inr False
   \<and> removeTrailingZeros (removeLeadingZeros ''0'') = ''0''
   \<and> removeLeadingZeros (drop 1 (removeLeadingZeros ''0.0'')) = ''0''
   \<and> coefficient (normalizedNumber ''0'') = ''0.''
   \<and> coefficient (normalizedNumber ''0.0'') = ''0.''
   \<and> coefficient (normalizedNumber ''0e0'') = ''0.''"
proof -
  have "\<exists>b. losesPrecision \<lparr>raw = r, val = JNumber x\<rparr> = Inr b"
    using baseTenLosesPrecision_number [of r x] notBaseTenLosesPrecision_number [of r x]
    by (simp add: losesPrecision_def)
  then show ?thesis
    using losesPrecision_no_RangeError [of node] requestedPrecision_convert(1) [of t]
      zero_coefficients
    by (simp add: zero_losesPrecision hex_zero)
qed

text \<open>
  C10. A node whose value is falsy, in particular a zero or NaN, is never reported: the
  visitor returns no diagnostic, and does not evaluate the predicate.
\<close>

theorem C10_falsy_value_no_report:
  assumes "val node = JNumber (Finite 0 e) \<or> val node = JNumber NaN \<or> \<not> ToBoolean (val node)"
  shows "Literal node = Inr []"
proof -
  from assms have "\<not> ToBoolean (val node)" by (auto simp: ToBoolean_def)
  then show ?thesis by (rule Literal_falsy)
qed

text \<open>
  C10 at the literal 0e5 with the value zero, on which the predicate itself returns true,
  and at a node whose value is NaN.
\<close>

theorem C10_falsy_value_no_report_witness:
  "losesPrecision \<lparr>raw = ''0e5'', val = JNumber (Finite 0 0)\<rparr> = Inr True
   \<and> Literal \<lparr>raw = ''0e5'', val = JNumber (Finite 0 0)\<rparr> = Inr []
   \<and> Literal \<lparr>raw = ''0'', val = JNumber NaN\<rparr> = Inr []"
proof -
  have "Literal \<lparr>raw = ''0e5'', val = JNumber (Finite 0 0)\<rparr> = Inr []"
    by (rule C10_falsy_value_no_report [where e = 0]) simp
  moreover have "Literal \<lparr>raw = ''0'', val = JNumber NaN\<rparr> = Inr []"
    by (rule C10_falsy_value_no_report [where e = 0]) simp
  ultimately show ?thesis using zero_losesPrecision(4) [of 0] by simp
qed

end
